theory Spec2Isabelle
  imports Complex_Main "HOL-Library.Word" "HOL-Library.Signed_Division"
begin

unbundle bit_operations_syntax

section \<open>Machine integers of klippy/chelper/stepcompress.c\<close>

text \<open>
  The C integers are fixed-width words. \<open>uint32_t\<close> and \<open>int32_t\<close> are both \<open>32 word\<close>;
  an \<open>int32_t\<close> is read with \<open>sint\<close> and compared with \<open>\<le>s\<close> and \<open><s\<close>, an \<open>uint32_t\<close>
  with \<open>unat\<close>, \<open>\<le>\<close> and \<open><\<close>. Addition, subtraction and multiplication wrap around
  (two's complement) for both. C's \<open>/\<close> on \<open>int32_t\<close> truncates towards zero: \<open>sdiv32\<close>.
\<close>

type_synonym u16 = "16 word"
type_synonym u32 = "32 word"
type_synonym u64 = "64 word"

definition sdiv32 :: "u32 \<Rightarrow> u32 \<Rightarrow> u32" where
  "sdiv32 a b = word_of_int (sint a sdiv sint b)"

section \<open>Step compression: rounding helpers\<close>

text \<open>
  Modelled from the spec: the macro \<open>DIV_ROUND_UP\<close> of compiler.h, which is not among the
  sources. stepcompress.c uses it as "n/d while rounding up" on a non-negative \<open>n\<close>; it is
  the usual \<open>((n) + (d) - 1) / (d)\<close>, evaluated on \<open>int32_t\<close>.
\<close>

definition DIV_ROUND_UP :: "u32 \<Rightarrow> u32 \<Rightarrow> u32" where
  "DIV_ROUND_UP n d = sdiv32 (n + d - 1) d"

text \<open>\<open>idiv_up\<close>: \<^verbatim>\<open>return (n>=0) ? DIV_ROUND_UP(n,d) : (n/d);\<close>\<close>

definition idiv_up :: "u32 \<Rightarrow> u32 \<Rightarrow> u32" where
  "idiv_up n d = (if 0 \<le>s n then DIV_ROUND_UP n d else sdiv32 n d)"

text \<open>\<open>idiv_down\<close>: \<^verbatim>\<open>return (n>=0) ? (n/d) : (n - d + 1) / d;\<close>\<close>

definition idiv_down :: "u32 \<Rightarrow> u32 \<Rightarrow> u32" where
  "idiv_down n d = (if 0 \<le>s n then sdiv32 n d else sdiv32 (n - d + 1) d)"

section \<open>Double-precision numbers\<close>

text \<open>
  The C type \<open>double\<close> is the IEEE 754 binary64 format: a finite value is a rational
  number, and there are the two infinities and NaN. The sign of a zero is not kept; no
  operation used here tells the two zeros apart. Every operation rounds its exact
  result to the nearest representable number, ties to the even significand
  (\<open>dbl_round\<close>); a product is not fused with the subtraction that consumes it.

  \<open>bit_length k\<close> is the number of binary digits of a positive \<open>k\<close>, so that
  \<open>floor_log2 x\<close> is the exponent \<open>n\<close> with \<open>2^n \<le> x < 2^(n+1)\<close> of a positive \<open>x\<close>. The
  significand has 53 bits and the least exponent of the last place is \<open>-1074\<close>; a
  result of magnitude \<open>2^1024\<close> or more is an infinity.
\<close>

datatype double = Finite rat | PInf | NInf | NaN

function bit_length :: "int \<Rightarrow> int" where
  "bit_length k = (if k \<le> 0 then 0 else 1 + bit_length (k div 2))"
  by pat_completeness auto
termination
  by (relation "measure nat") auto

declare bit_length.simps [simp del]

definition pow2 :: "int \<Rightarrow> rat" where
  "pow2 e = (if 0 \<le> e then 2 ^ nat e else 1 / 2 ^ nat (- e))"

definition floor_log2 :: "rat \<Rightarrow> int" where
  "floor_log2 x =
     (if 1 \<le> x then bit_length \<lfloor>x\<rfloor> - 1 else - bit_length (\<lceil>1 / x\<rceil> - 1))"

definition round_even :: "rat \<Rightarrow> int" where
  "round_even x =
     (let f = \<lfloor>x\<rfloor>; r = x - of_int f
      in if r < 1 / 2 then f else if 1 / 2 < r then f + 1
         else if even f then f else f + 1)"

definition dbl_round :: "rat \<Rightarrow> double" where
  "dbl_round x =
     (if x = 0 then Finite 0
      else
        (let e = max (floor_log2 \<bar>x\<bar> - 52) (- 1074);
             v = of_int (round_even (\<bar>x\<bar> / pow2 e)) * pow2 e
         in if pow2 1024 \<le> v then (if 0 < x then PInf else NInf)
            else Finite (if 0 < x then v else - v)))"

text \<open>The conversions of an \<open>uint64_t\<close> and of an \<open>int64_t\<close> to \<open>double\<close>.\<close>

definition double_of_u64 :: "64 word \<Rightarrow> double" where
  "double_of_u64 w = dbl_round (of_int (uint w))"

definition double_of_s64 :: "64 word \<Rightarrow> double" where
  "double_of_s64 w = dbl_round (of_int (sint w))"

text \<open>The operators \<open>*\<close>, \<open>-\<close> and \<open><\<close> on \<open>double\<close>.\<close>

fun dmul :: "double \<Rightarrow> double \<Rightarrow> double" where
  "dmul (Finite a) (Finite b) = dbl_round (a * b)"
| "dmul NaN y = NaN"
| "dmul x NaN = NaN"
| "dmul (Finite a) PInf = (if a = 0 then NaN else if 0 < a then PInf else NInf)"
| "dmul (Finite a) NInf = (if a = 0 then NaN else if 0 < a then NInf else PInf)"
| "dmul PInf (Finite b) = (if b = 0 then NaN else if 0 < b then PInf else NInf)"
| "dmul NInf (Finite b) = (if b = 0 then NaN else if 0 < b then NInf else PInf)"
| "dmul PInf PInf = PInf"
| "dmul PInf NInf = NInf"
| "dmul NInf PInf = NInf"
| "dmul NInf NInf = PInf"

fun dsub :: "double \<Rightarrow> double \<Rightarrow> double" where
  "dsub (Finite a) (Finite b) = dbl_round (a - b)"
| "dsub NaN y = NaN"
| "dsub x NaN = NaN"
| "dsub (Finite a) PInf = NInf"
| "dsub (Finite a) NInf = PInf"
| "dsub PInf PInf = NaN"
| "dsub PInf y = PInf"
| "dsub NInf NInf = NaN"
| "dsub NInf y = NInf"

fun dless :: "double \<Rightarrow> double \<Rightarrow> bool" where
  "dless (Finite a) (Finite b) \<longleftrightarrow> a < b"
| "dless NaN y \<longleftrightarrow> False"
| "dless x NaN \<longleftrightarrow> False"
| "dless x NInf \<longleftrightarrow> False"
| "dless PInf y \<longleftrightarrow> False"
| "dless NInf y \<longleftrightarrow> True"
| "dless x PInf \<longleftrightarrow> True"

text \<open>
  The conversion of a \<open>double\<close> to \<open>uint64_t\<close> truncates a value between \<open>-1\<close> and
  \<open>2^64\<close>. For any other operand C leaves the result undefined, and this definition
  yields 0. The only such operands that \<open>calc_last_step_print_time\<close> can pass are the
  values of \<open>2^64\<close> or more and plus infinity, for which the x86-64 code that gcc emits
  yields 0 as well.
\<close>

definition u64_of_double :: "double \<Rightarrow> 64 word" where
  "u64_of_double d =
     (case d of
        Finite v \<Rightarrow> if 0 \<le> v \<and> v < 2 ^ 64 then word_of_int \<lfloor>v\<rfloor> else 0
      | PInf \<Rightarrow> 0 | NInf \<Rightarrow> 0 | NaN \<Rightarrow> 0)"

section \<open>Data model\<close>

text \<open>
  Outcomes that are not a normal return. \<open>ERROR_RET\<close> is the error code that
  \<open>check_line\<close> returns for an invalid move. \<open>DivByZero\<close> stands for an integer division
  by zero, which traps, and \<open>OutOfBounds\<close> for the read of \<open>move_clocks[0]\<close> in a
  synchronizer that has no move clock. The step buffer is memory that every read and
  write through its cursors reaches, inside the allocated block or not: these never
  fail.
\<close>

datatype error = ERROR_RET | OutOfBounds | DivByZero

text \<open>
  \<open>struct queue_message\<close> (serialqueue.h, not among the sources): the fields that
  stepcompress.c touches. \<open>msg\<close> holds the 32-bit words handed to the encoder.
\<close>

record queue_message =
  msg :: "u32 list"
  min_clock :: u64
  req_clock :: u64

text \<open>
  Modelled from the spec: \<open>message_alloc_and_encode\<close> of serialqueue.c, which is not among
  the sources. It returns a fresh message for the given words; its clocks are zero
  ("simple commands (direction, passthroughs) have \<open>min_clock = 0\<close>").
\<close>

definition message_alloc_and_encode :: "u32 list \<Rightarrow> queue_message" where
  "message_alloc_and_encode ws = \<lparr>msg = ws, min_clock = 0, req_clock = 0\<rparr>"

text \<open>\<open>struct step_move\<close>; \<open>add\<close> is an \<open>int16_t\<close>.\<close>

record step_move =
  interval :: u32
  count :: u16
  add :: u16

text \<open>\<open>struct history_steps\<close>; \<open>start_position\<close> is an \<open>int64_t\<close>, the last three are \<open>int\<close>.\<close>

record history_steps =
  first_clock :: u64
  last_clock :: u64
  start_position :: u64
  step_count :: u32
  hs_interval :: u32
  hs_add :: u32

text \<open>
  \<open>struct stepcompress\<close>. The four pointers into the step buffer are kept as offsets,
  counted in entries, from the start of the buffer: \<open>queue_end\<close>, \<open>queue_pos\<close> and
  \<open>queue_next\<close> are \<open>queue_end - queue\<close>, \<open>queue_pos - queue\<close> and \<open>queue_next - queue\<close>,
  and the field \<open>queue\<close> is the memory that the pointer \<open>queue\<close> addresses: \<open>queue sc i\<close>
  is the word at \<open>sc->queue[i]\<close>. The offsets 0 to \<open>queue_end - 1\<close> are the allocated
  block; the entries from \<open>queue_pos\<close> to \<open>queue_next - 1\<close> are the queued steps, and the
  other words hold whatever was stored there last. A null buffer has all offsets 0.
  The list heads \<open>msg_queue\<close> and \<open>history_list\<close> are lists (the history has its newest
  entry first). \<open>sdir\<close>, \<open>invert_sdir\<close> and \<open>next_step_dir\<close> are \<open>int\<close>, \<open>last_position\<close>
  is an \<open>int64_t\<close>.

  \<open>mcu_time_offset\<close> and \<open>last_step_print_time\<close> only serve the conversion of a print
  time to a step clock in \<open>stepcompress_append\<close>, which takes the step clock as its
  argument here, and are left out.
\<close>

record stepcompress =
  queue :: "int \<Rightarrow> u32"
  queue_end :: int
  queue_pos :: int
  queue_next :: int
  max_error :: u32
  mcu_freq :: double
  last_interval :: u32
  last_ideal_step_clock :: u64
  last_step_clock :: u64
  msg_queue :: "queue_message list"
  oid :: u32
  queue_step_msgtag :: u32
  set_next_step_dir_msgtag :: u32
  sdir :: u32
  invert_sdir :: u32
  next_step_clock :: u64
  next_step_dir :: u32
  last_position :: u64
  history_list :: "history_steps list"

text \<open>\<open>struct add_move\<close>: both fields are \<open>int32_t\<close>.\<close>

record add_move =
  am_add :: u32
  am_count :: u32

text \<open>
  \<open>struct queue_ref\<close>. \<open>qr_queue\<close> is the memory of the owner's step buffer, \<open>qr_pos\<close>
  and \<open>qr_end\<close> are the reference's \<open>queue_pos\<close> and \<open>queue_end\<close> as offsets into it, and
  \<open>qr_max_error\<close> is \<open>qr->sc->max_error\<close>, the only field read through the back
  pointer.
\<close>

record queue_ref =
  qr_queue :: "int \<Rightarrow> u32"
  qr_pos :: int
  qr_end :: int
  qr_max_error :: u32
  qr_last_step_clock :: u64
  qr_last_ideal_step_clock :: u64
  qr_last_interval :: u32

text \<open>\<open>struct points\<close>: two \<open>int32_t\<close>.\<close>

record points =
  minp :: u32
  maxp :: u32

text \<open>
  \<open>struct add_range\<close>. \<open>minadd\<close> and \<open>maxadd\<close> are \<open>int32_t\<close>. \<open>ar_count\<close> counts the steps
  accepted so far; it never exceeds the length of the window (at most 65535), and is a
  natural number here, converted to \<open>int32_t\<close> wherever the C code computes with it.
\<close>

record add_range =
  minadd :: u32
  maxadd :: u32
  ar_count :: nat

section \<open>Step compression\<close>

definition qr_init :: "stepcompress \<Rightarrow> int \<Rightarrow> queue_ref" where
  "qr_init sc max_count =
     \<lparr>qr_queue = queue sc,
      qr_pos = queue_pos sc,
      qr_end = (if queue_pos sc + max_count < queue_next sc then queue_pos sc + max_count
                else queue_next sc),
      qr_max_error = max_error sc,
      qr_last_step_clock = last_step_clock sc,
      qr_last_ideal_step_clock = last_ideal_step_clock sc,
      qr_last_interval = last_interval sc\<rparr>"

text \<open>
  \<open>qr_after_move\<close> reads \<open>queue_pos[count - 1]\<close> and advances the cursor by \<open>count\<close>, an
  \<open>int32_t\<close>.
\<close>

definition qr_after_move :: "queue_ref \<Rightarrow> add_move \<Rightarrow> queue_ref" where
  "qr_after_move oqr am =
     (let add = am_add am; count = am_count am;
          addfactor = sdiv32 (count * (count + 1)) 2
      in oqr\<lparr>
           qr_last_ideal_step_clock :=
             ucast (qr_queue oqr (qr_pos oqr + sint count - 1)
                    - ucast (qr_last_step_clock oqr))
             + qr_last_step_clock oqr,
           qr_pos := qr_pos oqr + sint count,
           qr_last_step_clock :=
             qr_last_step_clock oqr + ucast (qr_last_interval oqr * count + addfactor * add),
           qr_last_interval := qr_last_interval oqr + count * add\<rparr>)"

text \<open>\<open>minmax_point qr i\<close> is the C call \<open>minmax_point(qr, qr->queue_pos + i)\<close>.\<close>

definition minmax_point :: "queue_ref \<Rightarrow> nat \<Rightarrow> points" where
  "minmax_point qr i =
     (let lsc = (ucast (qr_last_step_clock qr) :: u32);
          point = qr_queue qr (qr_pos qr + int i) - lsc;
          prevpoint = (if 0 < i then qr_queue qr (qr_pos qr + int i - 1) - lsc else 0);
          max_error0 = (point - prevpoint) div 2;
          max_error1 = (if qr_max_error qr < max_error0 then qr_max_error qr
                        else max_error0)
      in \<lparr>minp = point - max_error1, maxp = point\<rparr>)"

definition add_range_init :: add_range where
  "add_range_init = \<lparr>minadd = - 0x8000, maxadd = 0x7fff, ar_count = 0\<rparr>"

text \<open>
  \<open>add_range_update\<close>: \<open>Inr None\<close> is the return value \<open>-1\<close> (the range is left as it
  was), \<open>Inr (Some ar')\<close> is the return value \<open>0\<close> with the updated range. The divisor
  \<open>nextaddfactor\<close> is zero only when \<open>nextcount\<close> or \<open>nextcount + 1\<close> is a multiple of
  \<open>2 ^ 32\<close>, far beyond any window.
\<close>

definition add_range_update :: "add_range \<Rightarrow> queue_ref \<Rightarrow> error + add_range option" where
  "add_range_update ar qr =
     (if qr_end qr \<le> qr_pos qr + int (ar_count ar) then Inr None
      else
        (let nextpoint = minmax_point qr (ar_count ar);
             nextcount = (of_nat (ar_count ar) :: u32) + 1;
             nextaddfactor = sdiv32 (nextcount * (nextcount + 1)) 2;
             interval = qr_last_interval qr;
             nextminadd =
               (if interval * nextcount + minadd ar * nextaddfactor <s minp nextpoint
                then idiv_up (minp nextpoint - interval * nextcount) nextaddfactor
                else minadd ar);
             nextmaxadd =
               (if maxp nextpoint <s interval * nextcount + maxadd ar * nextaddfactor
                then idiv_down (maxp nextpoint - interval * nextcount) nextaddfactor
                else maxadd ar)
         in if nextaddfactor = 0 then Inl DivByZero
            else if nextmaxadd <s nextminadd then Inr None
            else Inr (Some \<lparr>minadd = nextminadd, maxadd = nextmaxadd,
                            ar_count = ar_count ar + 1\<rparr>)))"

text \<open>The loop of \<open>add_range_scan\<close>, and \<open>add_range_scan\<close> itself.\<close>

function add_range_loop :: "add_range \<Rightarrow> queue_ref \<Rightarrow> error + add_range" where
  "add_range_loop ar qr =
     (case add_range_update ar qr of
        Inl e \<Rightarrow> Inl e
      | Inr None \<Rightarrow> Inr ar
      | Inr (Some ar') \<Rightarrow> add_range_loop ar' qr)"
  by pat_completeness auto
termination
  by (relation "measure (\<lambda>(ar, qr). nat (qr_end qr - qr_pos qr - int (ar_count ar)))")
     (auto simp: add_range_update_def Let_def split: if_splits)

declare add_range_loop.simps [simp del]

definition add_range_scan :: "queue_ref \<Rightarrow> error + add_range" where
  "add_range_scan qr = add_range_loop add_range_init qr"

text \<open>
  \<open>calc_leastsquares\<close> computes in \<open>double\<close> (sums of products, quotients, \<open>round\<close>,
  comparisons of squared errors) and is not embedded: the functions below take it as
  the parameter \<open>ls\<close>, which maps the queue reference and \<open>totalcount\<close> to the returned
  \<open>struct add_move\<close>. Every theorem holds for every such function.

  The loop of \<open>compress_leastsquares\<close>; its arguments after \<open>qr\<close> are \<open>prev\<close>, \<open>next\<close> and
  \<open>prev_totalcount\<close>.
\<close>

function compress_loop ::
  "(queue_ref \<Rightarrow> u32 \<Rightarrow> add_move) \<Rightarrow> queue_ref \<Rightarrow> add_move \<Rightarrow> add_move \<Rightarrow> u32
   \<Rightarrow> error + add_move" where
  "compress_loop ls qr prev next prev_totalcount =
     (case add_range_scan (qr_after_move qr next) of
        Inl e \<Rightarrow> Inl e
      | Inr ar \<Rightarrow>
          (let totalcount = am_count next + of_nat (ar_count ar)
           in if totalcount \<le>s prev_totalcount then Inr prev
              else compress_loop ls qr next (ls qr totalcount) totalcount))"
  by pat_completeness auto
termination
proof (relation "measure (\<lambda>(ls, qr, prev, next, ptc). nat (2 ^ 31 - sint ptc))", goal_cases)
  case 1
  show ?case by simp
next
  case (2 ls qr prev "next" ptc ar tc)
  have "sint tc < 2 ^ 31" using sint_lt [of tc] by simp
  moreover have "sint ptc < sint tc" using 2 by (simp add: word_sle_eq)
  ultimately show ?case by simp
qed

declare compress_loop.simps [simp del]

definition compress_leastsquares ::
  "(queue_ref \<Rightarrow> u32 \<Rightarrow> add_move) \<Rightarrow> queue_ref \<Rightarrow> error + add_move" where
  "compress_leastsquares ls qr =
     (case add_range_scan qr of
        Inl e \<Rightarrow> Inl e
      | Inr outer_ar1 \<Rightarrow>
          if ar_count outer_ar1 = 0 then
            (let interval = qr_queue qr (qr_pos qr) - ucast (qr_last_step_clock qr);
                 st = interval - qr_last_interval qr - qr_max_error qr div 2
             in Inr \<lparr>am_add = st, am_count = 1\<rparr>)
          else
            (let outer_add1 = sdiv32 (minadd outer_ar1 + maxadd outer_ar1) 2;
                 start = \<lparr>am_add = outer_add1, am_count = of_nat (ar_count outer_ar1)\<rparr>
             in compress_loop ls qr start start 0))"

definition wrap_compress ::
  "(queue_ref \<Rightarrow> u32 \<Rightarrow> add_move) \<Rightarrow> stepcompress \<Rightarrow> error + step_move" where
  "wrap_compress ls sc =
     (let qr = qr_init sc 46000 in
      case compress_leastsquares ls qr of
        Inl e \<Rightarrow> Inl e
      | Inr am1 \<Rightarrow>
          (let single = \<lparr>interval = qr_last_interval qr + am_add am1,
                         count = ucast (am_count am1),
                         add = (if 1 <s am_count am1 then ucast (am_add am1) else 0)\<rparr>
           in if am_count am1 = 1 \<and> qr_pos qr + 1 < qr_end qr then
                (case compress_leastsquares ls (qr_after_move qr am1) of
                   Inl e \<Rightarrow> Inl e
                 | Inr am2 \<Rightarrow>
                     if - 0x8000 \<le>s am_add am2 \<and> am_add am2 \<le>s 0x7fff then
                       Inr \<lparr>interval = qr_last_interval qr + am_add am1,
                            count = ucast (am_count am2 + 1),
                            add = ucast (am_add am2)\<rparr>
                     else Inr single)
              else Inr single))"

section \<open>Step compress checking\<close>

text \<open>
  The loop of \<open>check_line\<close>; its arguments after \<open>move\<close> are \<open>interval\<close>, \<open>p\<close> and \<open>i\<close>.
  \<open>p\<close> is an \<open>uint32_t\<close>, so the comparisons with \<open>minp\<close> and \<open>maxp\<close> are unsigned. The
  loop reads \<open>queue_pos[i]\<close> for every \<open>i\<close> below \<open>move.count\<close>, whether or not that many
  steps are queued.
\<close>

function check_loop :: "queue_ref \<Rightarrow> step_move \<Rightarrow> u32 \<Rightarrow> u32 \<Rightarrow> nat \<Rightarrow> error + unit" where
  "check_loop qr move ival p i =
     (if i < unat (count move) then
        (let point = minmax_point qr i; p' = p + ival
         in if p' < minp point \<or> maxp point < p' then Inl ERROR_RET
            else if 0x80000000 \<le> ival then Inl ERROR_RET
            else check_loop qr move (ival + scast (add move)) p' (i + 1))
      else Inr ())"
  by pat_completeness auto
termination
  by (relation "measure (\<lambda>(qr, move, ival, p, i). unat (count move) - i)") auto

declare check_loop.simps [simp del]

definition check_line :: "stepcompress \<Rightarrow> step_move \<Rightarrow> error + unit" where
  "check_line sc move =
     (if count move = 0 \<or> (interval move = 0 \<and> add move = 0 \<and> 1 < count move)
         \<or> 0x80000000 \<le> interval move
      then Inl ERROR_RET
      else check_loop (qr_init sc 65535) move (interval move) 0 0)"

section \<open>Step compress interface\<close>

text \<open>\<open>stepcompress_alloc\<close>: \<open>memset\<close> to zero, then \<open>oid\<close> and \<open>sdir = -1\<close>.\<close>

definition stepcompress_alloc :: "u32 \<Rightarrow> stepcompress" where
  "stepcompress_alloc oid' =
     \<lparr>queue = (\<lambda>i. 0), queue_end = 0, queue_pos = 0, queue_next = 0, max_error = 0,
      mcu_freq = Finite 0, last_interval = 0, last_ideal_step_clock = 0,
      last_step_clock = 0, msg_queue = [], oid = oid', queue_step_msgtag = 0,
      set_next_step_dir_msgtag = 0, sdir = - 1, invert_sdir = 0, next_step_clock = 0,
      next_step_dir = 0, last_position = 0, history_list = []\<rparr>"

definition stepcompress_fill :: "stepcompress \<Rightarrow> u32 \<Rightarrow> u32 \<Rightarrow> u32 \<Rightarrow> stepcompress" where
  "stepcompress_fill sc max_error' queue_step_msgtag' set_next_step_dir_msgtag' =
     sc\<lparr>max_error := max_error', queue_step_msgtag := queue_step_msgtag',
        set_next_step_dir_msgtag := set_next_step_dir_msgtag'\<rparr>"

text \<open>\<open>free_history\<close>: drop entries from the tail (the oldest) up to \<open>end_clock\<close>.\<close>

function free_history :: "stepcompress \<Rightarrow> u64 \<Rightarrow> stepcompress" where
  "free_history sc end_clock =
     (if history_list sc = [] then sc
      else if end_clock < last_clock (last (history_list sc)) then sc
      else free_history (sc\<lparr>history_list := butlast (history_list sc)\<rparr>) end_clock)"
  by pat_completeness auto
termination
  by (relation "measure (\<lambda>(sc, end_clock). length (history_list sc))") auto

declare free_history.simps [simp del]

definition stepcompress_get_oid :: "stepcompress \<Rightarrow> u32" where
  "stepcompress_get_oid sc = oid sc"

definition stepcompress_get_step_dir :: "stepcompress \<Rightarrow> u32" where
  "stepcompress_get_step_dir sc = next_step_dir sc"

text \<open>
  \<open>calc_last_step_print_time\<close>, without the assignment to \<open>last_step_print_time\<close>:
  \<open>lsc\<close> is \<open>last_step_clock\<close> converted to \<open>double\<close>, and the expiry clock
  \<open>lsc - mcu_freq * HISTORY_EXPIRE\<close> is computed in \<open>double\<close> and converted to
  \<open>uint64_t\<close>.
\<close>

definition HISTORY_EXPIRE :: double where
  "HISTORY_EXPIRE = Finite 30"

definition calc_last_step_print_time :: "stepcompress \<Rightarrow> stepcompress" where
  "calc_last_step_print_time sc =
     (let lsc = double_of_u64 (last_step_clock sc)
      in if dless (dmul (mcu_freq sc) HISTORY_EXPIRE) lsc
         then free_history sc (u64_of_double (dsub lsc (dmul (mcu_freq sc) HISTORY_EXPIRE)))
         else sc)"

definition stepcompress_set_time :: "stepcompress \<Rightarrow> double \<Rightarrow> stepcompress" where
  "stepcompress_set_time sc mcu_freq' = calc_last_step_print_time (sc\<lparr>mcu_freq := mcu_freq'\<rparr>)"

definition CLOCK_DIFF_MAX :: u64 where
  "CLOCK_DIFF_MAX = push_bit 28 3"

text \<open>
  \<open>add_move\<close>. \<open>move->count\<close> is promoted from \<open>uint16_t\<close> to \<open>int\<close> and \<open>move->add\<close> from
  \<open>int16_t\<close> to \<open>int\<close>; \<open>ticks\<close> is an \<open>uint32_t\<close>.
\<close>

definition add_move :: "stepcompress \<Rightarrow> u64 \<Rightarrow> step_move \<Rightarrow> stepcompress" where
  "add_move sc first_clock' move =
     (let cnt = (ucast (count move) :: u32);
          addv = (scast (add move) :: u32);
          addfactor = sdiv32 (cnt * (cnt - 1)) 2;
          ticks = addv * addfactor + interval move * (cnt - 1);
          last_clock' = first_clock' + ucast ticks;
          qm = (message_alloc_and_encode
                  [queue_step_msgtag sc, oid sc, interval move, cnt, addv])
                 \<lparr>min_clock := last_step_clock sc,
                  req_clock :=
                    (if count move = 1 \<and> last_step_clock sc + CLOCK_DIFF_MAX \<le> first_clock'
                     then first_clock' else last_step_clock sc)\<rparr>;
          hs = \<lparr>first_clock = first_clock', last_clock = last_clock',
                start_position = last_position sc,
                step_count = (if sdir sc \<noteq> 0 then cnt else - cnt),
                hs_interval = interval move, hs_add = addv\<rparr>
      in sc\<lparr>last_interval := interval move + addv * (cnt - 1),
            msg_queue := msg_queue sc @ [qm],
            last_step_clock := last_clock',
            last_position := last_position sc + scast (step_count hs),
            history_list := hs # history_list sc\<rparr>)"

text \<open>
  The \<open>while\<close> loop of \<open>queue_flush\<close>. A move that passed \<open>check_line\<close> has a count of at
  least 1, so each round that does not leave the loop moves \<open>queue_pos\<close> towards
  \<open>queue_next\<close>.
\<close>

function queue_flush_loop ::
  "(queue_ref \<Rightarrow> u32 \<Rightarrow> add_move) \<Rightarrow> stepcompress \<Rightarrow> u64 \<Rightarrow> error + stepcompress" where
  "queue_flush_loop ls sc move_clock =
     (if last_step_clock sc < move_clock then
        (case wrap_compress ls sc of
           Inl e \<Rightarrow> Inl e
         | Inr move \<Rightarrow>
             (case check_line sc move of
                Inl e \<Rightarrow> Inl e
              | Inr u \<Rightarrow>
                  (let cnt = uint (count move);
                       sc1 = sc\<lparr>last_ideal_step_clock :=
                                  ucast (queue sc (queue_pos sc + cnt - 1)
                                         - ucast (last_step_clock sc))
                                  + last_step_clock sc\<rparr>;
                       sc2 = add_move sc1 (last_step_clock sc1 + ucast (interval move)) move
                   in if queue_next sc \<le> queue_pos sc + cnt
                      then Inr (sc2\<lparr>queue_pos := 0, queue_next := 0\<rparr>)
                      else queue_flush_loop ls (sc2\<lparr>queue_pos := queue_pos sc + cnt\<rparr>)
                             move_clock)))
      else Inr sc)"
  by pat_completeness auto
termination
proof (relation "measure (\<lambda>(ls, sc, move_clock). nat (queue_next sc - queue_pos sc))",
    goal_cases)
  case 1
  show ?case by simp
next
  case (2 ls sc move_clock move u cnt sc1 sc2)
  have "count move \<noteq> 0"
    using \<open>check_line sc move = Inr u\<close> by (auto simp: check_line_def split: if_splits)
  then have "0 < unat (count move)" by (simp add: unat_gt_0)
  then have "0 < uint (count move)" by (simp only: uint_nat of_nat_0_less_iff)
  moreover have "queue_next sc2 = queue_next sc" "queue_pos sc2 = queue_pos sc"
    using 2 by (simp_all add: add_move_def Let_def)
  ultimately show ?case using 2 by simp
qed

declare queue_flush_loop.simps [simp del]

definition queue_flush ::
  "(queue_ref \<Rightarrow> u32 \<Rightarrow> add_move) \<Rightarrow> stepcompress \<Rightarrow> u64 \<Rightarrow> error + stepcompress" where
  "queue_flush ls sc move_clock =
     (if queue_next sc \<le> queue_pos sc then Inr sc
      else case queue_flush_loop ls sc move_clock of
             Inl e \<Rightarrow> Inl e
           | Inr sc' \<Rightarrow> Inr (calc_last_step_print_time sc'))"

text \<open>
  \<open>stepcompress_flush_far\<close>: the initializer of \<open>move.interval\<close> converts the \<open>uint64_t\<close>
  difference to \<open>uint32_t\<close>.
\<close>

definition stepcompress_flush_far :: "stepcompress \<Rightarrow> u64 \<Rightarrow> stepcompress" where
  "stepcompress_flush_far sc abs_step_clock =
     (let move = \<lparr>interval = ucast (abs_step_clock - last_step_clock sc), count = 1, add = 0\<rparr>;
          sc1 = sc\<lparr>last_ideal_step_clock := abs_step_clock\<rparr>
      in calc_last_step_print_time (add_move sc1 abs_step_clock move))"

definition set_next_step_dir ::
  "(queue_ref \<Rightarrow> u32 \<Rightarrow> add_move) \<Rightarrow> stepcompress \<Rightarrow> u32 \<Rightarrow> error + stepcompress" where
  "set_next_step_dir ls sc sdir' =
     (if sdir sc = sdir' then Inr sc
      else case queue_flush ls sc (- 1) of
             Inl e \<Rightarrow> Inl e
           | Inr sc1 \<Rightarrow>
               Inr (sc1\<lparr>sdir := sdir',
                        msg_queue := msg_queue sc1 @
                          [(message_alloc_and_encode
                              [set_next_step_dir_msgtag sc1, oid sc1,
                               sdir' XOR invert_sdir sc1])
                             \<lparr>req_clock := last_step_clock sc1\<rparr>]\<rparr>))"

text \<open>
  The statement \<^verbatim>\<open>*sc->queue_next++ = clock;\<close>. The stored value is the clock converted
  to \<open>uint32_t\<close>.
\<close>

definition queue_store :: "stepcompress \<Rightarrow> u64 \<Rightarrow> stepcompress" where
  "queue_store sc clock =
     sc\<lparr>queue := (queue sc)(queue_next sc := ucast clock), queue_next := queue_next sc + 1\<rparr>"

text \<open>
  \<open>queue_append_far\<close>. Its last statement stores through \<open>queue_next\<close> without
  comparing it with \<open>queue_end\<close>.
\<close>

definition queue_append_far ::
  "(queue_ref \<Rightarrow> u32 \<Rightarrow> add_move) \<Rightarrow> stepcompress \<Rightarrow> error + stepcompress" where
  "queue_append_far ls sc =
     (let step_clock = next_step_clock sc
      in case queue_flush ls (sc\<lparr>next_step_clock := 0\<rparr>) (step_clock - CLOCK_DIFF_MAX + 1) of
           Inl e \<Rightarrow> Inl e
         | Inr sc1 \<Rightarrow>
             if last_step_clock sc1 + CLOCK_DIFF_MAX \<le> step_clock
             then Inr (stepcompress_flush_far sc1 step_clock)
             else Inr (queue_store sc1 step_clock))"

definition QUEUE_START_SIZE :: int where
  "QUEUE_START_SIZE = 1024"

text \<open>The loop \<^verbatim>\<open>while (in_use >= alloc) alloc *= 2;\<close> (\<open>alloc\<close> is not zero there).\<close>

function grow_alloc :: "int \<Rightarrow> int \<Rightarrow> int" where
  "grow_alloc in_use alloc =
     (if 0 < alloc \<and> alloc \<le> in_use then grow_alloc in_use (alloc * 2) else alloc)"
  by pat_completeness auto
termination
  by (relation "measure (\<lambda>(in_use, alloc). nat (in_use + 1 - alloc))") auto

declare grow_alloc.simps [simp del]

text \<open>
  The block \<^verbatim>\<open>if (sc->queue_next >= sc->queue_end) { ... }\<close> of \<open>queue_append_extend\<close>:
  \<open>memmove\<close> the queued entries to the start of the buffer, or enlarge the buffer.
  \<open>realloc\<close> keeps the words of the old block; what the words that it adds hold is not
  determined by C, and here the memory stays as it is, as when the block is enlarged in
  place. \<open>in_use\<close> and \<open>alloc\<close> are \<open>int\<close> in C and unbounded integers here; the two
  agree while the buffer has fewer than \<open>2^31\<close> entries.
\<close>

definition queue_make_room :: "stepcompress \<Rightarrow> stepcompress" where
  "queue_make_room sc =
     (if queue_end sc \<le> queue_next sc then
        (let in_use = queue_next sc - queue_pos sc;
             sc1 =
               (if 0 < queue_pos sc
                then sc\<lparr>queue := (\<lambda>i. if 0 \<le> i \<and> i < in_use then queue sc (queue_pos sc + i)
                                       else queue sc i)\<rparr>
                else
                  (let alloc = queue_end sc;
                       alloc1 = (if alloc = 0 then QUEUE_START_SIZE else alloc)
                   in sc\<lparr>queue_end := grow_alloc in_use alloc1\<rparr>))
         in sc1\<lparr>queue_pos := 0, queue_next := in_use\<rparr>)
      else sc)"

definition queue_append_extend ::
  "(queue_ref \<Rightarrow> u32 \<Rightarrow> add_move) \<Rightarrow> stepcompress \<Rightarrow> error + stepcompress" where
  "queue_append_extend ls sc =
     (case (if 65535 + 2000 < queue_next sc - queue_pos sc then
              (let flush = queue sc (queue_next sc - 65535) - ucast (last_step_clock sc)
               in queue_flush ls sc (last_step_clock sc + ucast flush))
            else Inr sc) of
        Inl e \<Rightarrow> Inl e
      | Inr sc1 \<Rightarrow>
          (let sc2 = queue_make_room sc1
           in Inr ((queue_store sc2 (next_step_clock sc2))\<lparr>next_step_clock := 0\<rparr>)))"

definition queue_append ::
  "(queue_ref \<Rightarrow> u32 \<Rightarrow> add_move) \<Rightarrow> stepcompress \<Rightarrow> error + stepcompress" where
  "queue_append ls sc =
     (case (if next_step_dir sc \<noteq> sdir sc then set_next_step_dir ls sc (next_step_dir sc)
            else Inr sc) of
        Inl e \<Rightarrow> Inl e
      | Inr sc1 \<Rightarrow>
          if last_step_clock sc1 + CLOCK_DIFF_MAX \<le> next_step_clock sc1
          then queue_append_far ls sc1
          else if queue_end sc1 \<le> queue_next sc1
          then queue_append_extend ls sc1
          else Inr ((queue_store sc1 (next_step_clock sc1))\<lparr>next_step_clock := 0\<rparr>))"

text \<open>The constant \<open>.000750\<close> is the \<open>double\<close> nearest to \<open>750 / 1000000\<close>.\<close>

definition SDS_FILTER_TIME :: double where
  "SDS_FILTER_TIME = dbl_round (750 / 1000000)"

text \<open>
  \<open>stepcompress_append\<close>. The argument \<open>step_clock\<close> is the value of the local variable
  \<open>step_clock\<close>, which C computes in \<open>double\<close> from \<open>print_time\<close> and \<open>step_time\<close>. The
  filter converts the \<open>int64_t\<close> difference of the clocks to \<open>double\<close> and compares it
  with the \<open>double\<close> product \<open>SDS_FILTER_TIME * mcu_freq\<close>.
\<close>

definition stepcompress_append ::
  "(queue_ref \<Rightarrow> u32 \<Rightarrow> add_move) \<Rightarrow> stepcompress \<Rightarrow> u32 \<Rightarrow> u64 \<Rightarrow> error + stepcompress" where
  "stepcompress_append ls sc sdir' step_clock =
     (if next_step_clock sc \<noteq> 0 then
        (if sdir' \<noteq> next_step_dir sc
            \<and> dless (double_of_s64 (step_clock - next_step_clock sc))
                 (dmul SDS_FILTER_TIME (mcu_freq sc))
         then Inr (sc\<lparr>next_step_clock := 0, next_step_dir := sdir'\<rparr>)
         else case queue_append ls sc of
                Inl e \<Rightarrow> Inl e
              | Inr sc1 \<Rightarrow> Inr (sc1\<lparr>next_step_clock := step_clock, next_step_dir := sdir'\<rparr>))
      else Inr (sc\<lparr>next_step_clock := step_clock, next_step_dir := sdir'\<rparr>))"


definition stepcompress_flush ::
  "(queue_ref \<Rightarrow> u32 \<Rightarrow> add_move) \<Rightarrow> stepcompress \<Rightarrow> u64 \<Rightarrow> error + stepcompress" where
  "stepcompress_flush ls sc move_clock =
     (case (if next_step_clock sc \<noteq> 0 \<and> next_step_clock sc \<le> move_clock
            then queue_append ls sc else Inr sc) of
        Inl e \<Rightarrow> Inl e
      | Inr sc1 \<Rightarrow> queue_flush ls sc1 move_clock)"

definition stepcompress_reset ::
  "(queue_ref \<Rightarrow> u32 \<Rightarrow> add_move) \<Rightarrow> stepcompress \<Rightarrow> u64 \<Rightarrow> error + stepcompress" where
  "stepcompress_reset ls sc last_step_clock' =
     (case stepcompress_flush ls sc (- 1) of
        Inl e \<Rightarrow> Inl e
      | Inr sc1 \<Rightarrow>
          Inr (calc_last_step_print_time
                 (sc1\<lparr>last_step_clock := last_step_clock', last_interval := 0, sdir := - 1\<rparr>)))"

definition stepcompress_queue_msg ::
  "(queue_ref \<Rightarrow> u32 \<Rightarrow> add_move) \<Rightarrow> stepcompress \<Rightarrow> u32 list \<Rightarrow> error + stepcompress" where
  "stepcompress_queue_msg ls sc data =
     (case stepcompress_flush ls sc (- 1) of
        Inl e \<Rightarrow> Inl e
      | Inr sc1 \<Rightarrow>
          Inr (sc1\<lparr>msg_queue := msg_queue sc1 @
                 [(message_alloc_and_encode data)\<lparr>req_clock := last_step_clock sc1\<rparr>]\<rparr>))"

text \<open>
  \<open>stepcompress_find_past_position\<close>. The quadratic formula of the \<open>add \<noteq> 0\<close> branch is
  computed in \<open>double\<close> and not embedded: \<open>qs interval add ticks\<close> stands for the \<open>int32_t\<close>
  it yields. The loop over the history list comes first; its last argument is the
  local variable \<open>last_position\<close>.
\<close>

fun find_past_loop ::
  "(u32 \<Rightarrow> u32 \<Rightarrow> u32 \<Rightarrow> u32) \<Rightarrow> history_steps list \<Rightarrow> u64 \<Rightarrow> u64 \<Rightarrow> error + u64" where
  "find_past_loop qs [] clock last_position' = Inr last_position'"
| "find_past_loop qs (hs # rest) clock last_position' =
     (if clock < first_clock hs then find_past_loop qs rest clock (start_position hs)
      else if last_clock hs \<le> clock then Inr (start_position hs + scast (step_count hs))
      else
        (let ival = hs_interval hs; addv = hs_add hs;
             ticks = (ucast (clock - first_clock hs) :: u32) + ival
         in case (if addv = 0
                  then (if ival = 0 then Inl DivByZero else Inr (sdiv32 ticks ival))
                  else Inr (qs ival addv ticks)) of
              Inl e \<Rightarrow> Inl e
            | Inr offset \<Rightarrow>
                if step_count hs <s 0 then Inr (start_position hs - scast offset)
                else Inr (start_position hs + scast offset)))"

definition stepcompress_find_past_position ::
  "(u32 \<Rightarrow> u32 \<Rightarrow> u32 \<Rightarrow> u32) \<Rightarrow> stepcompress \<Rightarrow> u64 \<Rightarrow> error + u64" where
  "stepcompress_find_past_position qs sc clock =
     find_past_loop qs (history_list sc) clock (last_position sc)"

section \<open>Step synchronization\<close>

text \<open>
  \<open>struct steppersync\<close>: the stepcompress objects (\<open>sc_list\<close>, \<open>sc_num\<close> its length) and
  the heap of move-queue slot clocks (\<open>move_clocks\<close>, \<open>num_move_clocks\<close> its length). The
  serial queue and the command queue are only passed on to \<open>serialqueue_send_batch\<close>.
\<close>

record steppersync =
  sc_list :: "stepcompress list"
  move_clocks :: "u64 list"

text \<open>
  \<open>heap_replace\<close>: the loop sifts \<open>req_clock\<close> down from the root. A missing child counts
  as \<open>UINT64_MAX\<close>, written \<open>- 1\<close>. The loop descends only to a child that exists, so
  that \<open>length mc - pos\<close> decreases.
\<close>

function heap_replace_loop :: "u64 list \<Rightarrow> u64 \<Rightarrow> nat \<Rightarrow> u64 list" where
  "heap_replace_loop mc req_clock' pos =
     (let nmc = length mc;
          child1_pos = 2 * pos + 1; child2_pos = 2 * pos + 2;
          child2_clock = (if child2_pos < nmc then mc ! child2_pos else - 1);
          child1_clock = (if child1_pos < nmc then mc ! child1_pos else - 1)
      in if req_clock' \<le> child1_clock \<and> req_clock' \<le> child2_clock
         then mc[pos := req_clock']
         else if child1_clock < child2_clock
         then heap_replace_loop (mc[pos := child1_clock]) req_clock' child1_pos
         else heap_replace_loop (mc[pos := child2_clock]) req_clock' child2_pos)"
  by pat_completeness auto
termination
proof (relation "measure (\<lambda>(mc, req_clock', pos). length mc - pos)", goal_cases)
  case 1
  show ?case by (simp)
next
  case (2 mc req_clock' pos nmc child1_pos child2_pos child2_clock child1_clock)
  have "child1_pos < nmc"
  proof (rule ccontr)
    assume "\<not> child1_pos < nmc"
    then have "child1_clock = - 1" using 2 by (simp)
    then show False using 2(7) by (simp add: word_order.extremum_strict)
  qed
  then show ?case using 2(1,2) by (simp)
next
  case (3 mc req_clock' pos nmc child1_pos child2_pos child2_clock child1_clock)
  have "child2_pos < nmc"
  proof (rule ccontr)
    assume "\<not> child2_pos < nmc"
    then have c2: "child2_clock = - 1" using 3 by (simp)
    then have "child1_clock = - 1"
      using 3(7) by (simp add: not_less word_order.extremum_unique)
    then show False using 3(6) c2 by (simp)
  qed
  then show ?case using 3(1,3) by (simp)
qed

declare heap_replace_loop.simps [simp del]

definition heap_replace :: "steppersync \<Rightarrow> u64 \<Rightarrow> steppersync" where
  "heap_replace ss req_clock' =
     ss\<lparr>move_clocks := heap_replace_loop (move_clocks ss) req_clock' 0\<rparr>"

text \<open>
  The inner loop of \<open>steppersync_flush\<close>: the first message of the stepper queues whose
  \<open>req_clock\<close> is strictly below every earlier candidate, starting from \<open>MAX_CLOCK\<close>;
  the result carries the index of its stepper. \<open>None\<close> is the \<open>NULL\<close> of \<open>qm\<close>.
\<close>

fun find_lowest ::
  "stepcompress list \<Rightarrow> nat \<Rightarrow> u64 \<Rightarrow> (nat \<times> queue_message) option
   \<Rightarrow> (nat \<times> queue_message) option" where
  "find_lowest [] i req_clock' qm = qm"
| "find_lowest (sc # scs) i req_clock' qm =
     (case msg_queue sc of
        [] \<Rightarrow> find_lowest scs (i + 1) req_clock' qm
      | m # ms \<Rightarrow>
          if req_clock m < req_clock'
          then find_lowest scs (i + 1) (req_clock m) (Some (i, m))
          else find_lowest scs (i + 1) req_clock' qm)"

text \<open>
  The number of messages in all stepper queues; every round of the outer loop removes one.
\<close>

definition queued :: "stepcompress list \<Rightarrow> nat" where
  "queued scs = sum_list (map (\<lambda>sc. length (msg_queue sc)) scs)"

text \<open>
  \<open>list_del(&qm->node)\<close> for the first message of stepper \<open>i\<close>.
\<close>

definition list_del_first :: "stepcompress list \<Rightarrow> nat \<Rightarrow> stepcompress list" where
  "list_del_first scs i = scs[i := (scs ! i)\<lparr>msg_queue := tl (msg_queue (scs ! i))\<rparr>]"

text \<open>
  The outer loop of \<open>steppersync_flush\<close>, on the stepper list, the heap and the batch
  \<open>msgs\<close>; every batched message is paired with the index of its stepper. \<open>MAX_CLOCK\<close>
  of serialqueue.h is not among the sources and is the parameter \<open>max_clock\<close>. Reading
  \<open>move_clocks[0]\<close> of an empty heap is \<open>OutOfBounds\<close>.
\<close>

function sync_loop ::
  "u64 \<Rightarrow> stepcompress list \<Rightarrow> u64 list \<Rightarrow> u64 \<Rightarrow> (nat \<times> queue_message) list
   \<Rightarrow> error + stepcompress list \<times> u64 list \<times> (nat \<times> queue_message) list" where
  "sync_loop max_clock scs mc move_clock msgs =
     (case find_lowest scs 0 max_clock None of
        None \<Rightarrow> Inr (scs, mc, msgs)
      | Some (i, qm) \<Rightarrow>
          if min_clock qm \<noteq> 0 \<and> move_clock < req_clock qm then Inr (scs, mc, msgs)
          else if mc = [] then Inl OutOfBounds
          else
            (let next_avail = mc ! 0;
                 mc1 = (if min_clock qm \<noteq> 0 then heap_replace_loop mc (min_clock qm) 0
                        else mc);
                 qm1 = qm\<lparr>min_clock := next_avail\<rparr>
             in sync_loop max_clock (list_del_first scs i) mc1 move_clock
                  (msgs @ [(i, qm1)])))"
  by pat_completeness auto
termination
proof (relation "measure (\<lambda>(max_clock, scs, mc, move_clock, msgs). queued scs)", goal_cases)
  case 1
  show ?case by (simp)
next
  case (2 max_clock scs mc move_clock msgs found i qm next_avail mc1 qm1)
  have fl: "find_lowest xs k r q = Some (j, m) \<Longrightarrow>
      q = Some (j, m) \<or> (k \<le> j \<and> j - k < length xs \<and> msg_queue (xs ! (j - k)) \<noteq> [])"
    for xs k r q j m
  proof (induction xs arbitrary: k r q)
    case Nil
    then show ?case by (simp)
  next
    case (Cons sc xs)
    show ?case
    proof (cases "msg_queue sc")
      case Nil
      then have "find_lowest xs (Suc k) r q = Some (j, m)"
        using Cons.prems by (simp)
      from Cons.IH [OF this] show ?thesis
        by (auto simp: Suc_diff_le)
    next
      case (Cons m0 ms)
      note q0 = this
      show ?thesis
      proof (cases "req_clock m0 < r")
        case True
        then have "find_lowest xs (Suc k) (req_clock m0) (Some (k, m0)) = Some (j, m)"
          using Cons.prems q0 by (simp)
        from Cons.IH [OF this] show ?thesis
          using q0 by (auto simp: Suc_diff_le)
      next
        case False
        then have "find_lowest xs (Suc k) r q = Some (j, m)"
          using Cons.prems q0 by (simp)
        from Cons.IH [OF this] show ?thesis
          by (auto simp: Suc_diff_le)
      qed
    qed
  qed
  have "find_lowest scs 0 max_clock None = Some (i, qm)"
    using 2(1,2) by (simp)
  from fl [OF this] have i: "i < length scs" and ne: "msg_queue (scs ! i) \<noteq> []"
    by (simp_all)
  let ?f = "\<lambda>sc. length (msg_queue sc)"
  have "queued (list_del_first scs i)
      = sum_list ((map ?f scs)[i := length (msg_queue (scs ! i)) - 1])"
    by (simp add: queued_def list_del_first_def map_update)
  also have "\<dots> = sum_list (map ?f scs) + (length (msg_queue (scs ! i)) - 1) - map ?f scs ! i"
    using i by (simp add: sum_list_update)
  also have "\<dots> < queued scs"
  proof -
    have "?f (scs ! i) \<in> set (map ?f scs)"
      using i by (simp)
    then have "?f (scs ! i) \<le> sum_list (map ?f scs)"
      by (simp add: member_le_sum_list del: set_map)
    moreover have "0 < ?f (scs ! i)" using ne by (simp)
    ultimately have "sum_list (map ?f scs) + (?f (scs ! i) - 1) - ?f (scs ! i)
        < sum_list (map ?f scs)"
      by (arith)
    then show ?thesis
      using i by (simp add: queued_def)
  qed
  finally show ?case by (simp)
qed

declare sync_loop.simps [simp del]

text \<open>
  The first loop of \<open>steppersync_flush\<close>: \<open>stepcompress_flush\<close> on every stepper, in
  order, returning at the first error.
\<close>

fun flush_all ::
  "(queue_ref \<Rightarrow> u32 \<Rightarrow> add_move) \<Rightarrow> stepcompress list \<Rightarrow> u64 \<Rightarrow> error + stepcompress list"
  where
  "flush_all ls [] move_clock = Inr []"
| "flush_all ls (sc # scs) move_clock =
     (case stepcompress_flush ls sc move_clock of
        Inl e \<Rightarrow> Inl e
      | Inr sc' \<Rightarrow>
          (case flush_all ls scs move_clock of
             Inl e \<Rightarrow> Inl e
           | Inr scs' \<Rightarrow> Inr (sc' # scs')))"

text \<open>
  \<open>steppersync_flush\<close> returns the new state together with the list \<open>msgs\<close> that it
  hands to \<open>serialqueue_send_batch\<close>.
\<close>

definition steppersync_flush ::
  "u64 \<Rightarrow> (queue_ref \<Rightarrow> u32 \<Rightarrow> add_move) \<Rightarrow> steppersync \<Rightarrow> u64
   \<Rightarrow> error + steppersync \<times> (nat \<times> queue_message) list" where
  "steppersync_flush max_clock ls ss move_clock =
     (case flush_all ls (sc_list ss) move_clock of
        Inl e \<Rightarrow> Inl e
      | Inr scs \<Rightarrow>
          (case sync_loop max_clock scs (move_clocks ss) move_clock [] of
             Inl e \<Rightarrow> Inl e
           | Inr (scs', mc', msgs) \<Rightarrow> Inr (\<lparr>sc_list = scs', move_clocks = mc'\<rparr>, msgs)))"

section \<open>Scenarios\<close>

text \<open>
  Two consecutive calls of \<open>stepcompress_append\<close>; the second runs only if the first
  returned 0.
\<close>

definition append2 ::
  "(queue_ref \<Rightarrow> u32 \<Rightarrow> add_move) \<Rightarrow> stepcompress \<Rightarrow> u32 \<Rightarrow> u64 \<Rightarrow> u32 \<Rightarrow> u64
   \<Rightarrow> error + stepcompress" where
  "append2 ls sc d1 c1 d2 c2 =
     (case stepcompress_append ls sc d1 c1 of
        Inl e \<Rightarrow> Inl e
      | Inr sc1 \<Rightarrow> stepcompress_append ls sc1 d2 c2)"

text \<open>
  A stand-in for \<open>calc_leastsquares\<close> in closed statements: the value \<open>{0, 0}\<close> that the
  C function returns when it accepts no candidate. The runs below that name it never
  reach the call.
\<close>

definition ls_none :: "queue_ref \<Rightarrow> u32 \<Rightarrow> add_move" where
  "ls_none qr totalcount = \<lparr>am_add = 0, am_count = 0\<rparr>"

text \<open>
  A stand-in for the quadratic formula of \<open>stepcompress_find_past_position\<close> in closed
  statements; the runs that name it never reach the \<open>add \<noteq> 0\<close> branch.
\<close>

definition qs_none :: "u32 \<Rightarrow> u32 \<Rightarrow> u32 \<Rightarrow> u32" where
  "qs_none ival addv ticks = 0"

text \<open>
  The object of the end-to-end scenarios: freshly allocated, \<open>max_error = 25\<close>,
  \<open>mcu_freq = 1e6\<close>.
\<close>

definition sc_fresh :: stepcompress where
  "sc_fresh =
     stepcompress_set_time (stepcompress_fill (stepcompress_alloc 7) 25 11 12)
       (Finite 1000000)"

text \<open>
  The same object with \<open>mcu_freq = 30666.666666666668\<close>, the \<open>double\<close> nearest to
  \<open>92000 / 3\<close>.
\<close>

definition sc_third :: stepcompress where
  "sc_third = sc_fresh\<lparr>mcu_freq := dbl_round (92000 / 3)\<rparr>"



text \<open>
  The states of the run "append a step at clock 100000, append a step at clock 100008,
  flush" on the scenario object: after the two appends (\<open>sc_two\<close>), after the second
  step has been queued (\<open>sc_queued\<close>) and after the first move has been emitted
  (\<open>sc_second\<close>); \<open>qr_two\<close> and \<open>qr_second\<close> are the queue references taken of the last
  two.
\<close>

definition sc_two :: stepcompress where
  "sc_two = sc_fresh\<lparr>queue := (\<lambda>i. 0)(0 := 100000), queue_end := 1024, queue_next := 1,
      msg_queue := [\<lparr>msg = [12, 7, 1], min_clock = 0, req_clock = 0\<rparr>],
      sdir := 1, next_step_clock := 100008, next_step_dir := 1\<rparr>"

definition sc_queued :: stepcompress where
  "sc_queued = sc_two\<lparr>queue := (\<lambda>i. 0)(0 := 100000, 1 := 100008), queue_next := 2,
      next_step_clock := 0\<rparr>"

definition sc_second :: stepcompress where
  "sc_second = sc_queued\<lparr>queue_pos := 1,
      last_interval := 99988, last_ideal_step_clock := 100000, last_step_clock := 99988,
      msg_queue := [\<lparr>msg = [12, 7, 1], min_clock = 0, req_clock = 0\<rparr>,
                    \<lparr>msg = [11, 7, 99988, 1, 0], min_clock = 0, req_clock = 0\<rparr>],
      last_position := 1,
      history_list := [\<lparr>first_clock = 99988, last_clock = 99988, start_position = 0,
                         step_count = 1, hs_interval = 99988, hs_add = 0\<rparr>]\<rparr>"

definition qr_two :: queue_ref where
  "qr_two = \<lparr>qr_queue = (\<lambda>i. 0)(0 := 100000, 1 := 100008), qr_pos = 0, qr_end = 2,
      qr_max_error = 25, qr_last_step_clock = 0, qr_last_ideal_step_clock = 0,
      qr_last_interval = 0\<rparr>"

definition qr_second :: queue_ref where
  "qr_second = \<lparr>qr_queue = (\<lambda>i. 0)(0 := 100000, 1 := 100008), qr_pos = 1, qr_end = 2,
      qr_max_error = 25, qr_last_step_clock = 99988, qr_last_ideal_step_clock = 100000,
      qr_last_interval = 99988\<rparr>"

text \<open>
  Modelled from the spec: the constant \<open>MAX_CLOCK\<close> of serialqueue.h, which is not among
  the sources. \<open>steppersync_flush\<close> starts its search for the lowest \<open>req_clock\<close> from
  it, so it is a clock above those of all queued messages; the runs below take the
  largest \<open>int64_t\<close>, and their messages have clocks of at most 1000.
\<close>

definition MAX_CLOCK :: u64 where
  "MAX_CLOCK = 0x7fffffffffffffff"

text \<open>
  A stepper with one queued message of \<open>req_clock\<close> 1000 and a pending step at clock
  200000, while \<open>last_step_clock\<close> is 0: the state after \<open>stepcompress_reset\<close> to 1000,
  \<open>stepcompress_queue_msg\<close>, \<open>stepcompress_reset\<close> to 0 and \<open>stepcompress_append\<close> of a
  step at 200000. \<open>sc_late_queued\<close> is the state after \<open>queue_append\<close> has moved the
  pending step into the step queue, \<open>sc_late_flushed\<close> the state after
  \<open>stepcompress_flush\<close> up to clock 300000.
\<close>

definition sc_late :: stepcompress where
  "sc_late = sc_fresh\<lparr>msg_queue := [\<lparr>msg = [1], min_clock = 0, req_clock = 1000\<rparr>],
      next_step_clock := 200000, next_step_dir := 1\<rparr>"

definition sc_late_queued :: stepcompress where
  "sc_late_queued = sc_late\<lparr>queue := (\<lambda>i. 0)(0 := 200000), queue_end := 1024,
      queue_next := 1,
      msg_queue := [\<lparr>msg = [1], min_clock = 0, req_clock = 1000\<rparr>,
                    \<lparr>msg = [12, 7, 1], min_clock = 0, req_clock = 0\<rparr>],
      sdir := 1, next_step_clock := 0\<rparr>"

definition sc_late_flushed :: stepcompress where
  "sc_late_flushed = sc_late_queued\<lparr>queue_next := 0,
      last_interval := 199988, last_ideal_step_clock := 200000, last_step_clock := 199988,
      msg_queue := [\<lparr>msg = [1], min_clock = 0, req_clock = 1000\<rparr>,
                    \<lparr>msg = [12, 7, 1], min_clock = 0, req_clock = 0\<rparr>,
                    \<lparr>msg = [11, 7, 199988, 1, 0], min_clock = 0, req_clock = 0\<rparr>],
      last_position := 1,
      history_list := [\<lparr>first_clock = 199988, last_clock = 199988, start_position = 0,
                         step_count = 1, hs_interval = 199988, hs_add = 0\<rparr>]\<rparr>"

definition ss_late :: steppersync where
  "ss_late = \<lparr>sc_list = [sc_late], move_clocks = [0]\<rparr>"

definition qr_late :: queue_ref where
  "qr_late = \<lparr>qr_queue = (\<lambda>i. 0)(0 := 200000), qr_pos = 0, qr_end = 1, qr_max_error = 25,
      qr_last_step_clock = 0, qr_last_ideal_step_clock = 0, qr_last_interval = 0\<rparr>"

text \<open>
  Two steppers as in scenario S5: A holds one step message of \<open>req_clock\<close> 1000, B one
  of \<open>req_clock\<close> 900, both with a non-zero \<open>min_clock\<close>, so that each takes a slot of
  the move queue. The heap has two slots, initially 0.
\<close>

definition sc_a :: stepcompress where
  "sc_a = sc_fresh\<lparr>msg_queue :=
      [\<lparr>msg = [11, 7, 500, 1, 0], min_clock = 500, req_clock = 1000\<rparr>]\<rparr>"

definition sc_b :: stepcompress where
  "sc_b = sc_fresh\<lparr>msg_queue :=
      [\<lparr>msg = [11, 8, 500, 1, 0], min_clock = 400, req_clock = 900\<rparr>]\<rparr>"

definition ss_s5 :: steppersync where
  "ss_s5 = \<lparr>sc_list = [sc_a, sc_b], move_clocks = [0, 0]\<rparr>"

section \<open>The step buffer\<close>



text \<open>
  The state that one round of the loop of \<open>queue_flush\<close> reaches by \<open>add_move\<close> for the
  move \<open>mv\<close>, before the cursors are moved.
\<close>

definition flush_next :: "stepcompress \<Rightarrow> step_move \<Rightarrow> stepcompress" where
  "flush_next sc mv =
     add_move (sc\<lparr>last_ideal_step_clock :=
                   ucast (queue sc (queue_pos sc + uint (count mv) - 1)
                          - ucast (last_step_clock sc))
                   + last_step_clock sc\<rparr>)
       (last_step_clock sc + ucast (interval mv)) mv"



section \<open>The order of a batch\<close>

text \<open>
  \<open>taken_from i batch\<close> is the subsequence of the batch drawn from stepper \<open>i\<close>.
  \<open>steppersync_flush\<close> overwrites \<open>min_clock\<close> in every message it batches, so that
  messages are compared by \<open>sent\<close>, their words and their \<open>req_clock\<close>.
  \<open>batch_clocks\<close> is the sequence of \<open>req_clock\<close> of a batch, \<open>queues_sorted\<close> says that
  every stepper queue is non-decreasing in \<open>req_clock\<close>, and \<open>below msgs scs\<close> that no
  batched message is later than a queued one.
\<close>

definition taken_from :: "nat \<Rightarrow> (nat \<times> queue_message) list \<Rightarrow> queue_message list" where
  "taken_from i batch = map snd (filter (\<lambda>p. fst p = i) batch)"

definition sent :: "queue_message \<Rightarrow> u32 list \<times> u64" where
  "sent m = (msg m, req_clock m)"

definition batch_clocks :: "(nat \<times> queue_message) list \<Rightarrow> u64 list" where
  "batch_clocks batch = map (\<lambda>p. req_clock (snd p)) batch"

definition queues_sorted :: "stepcompress list \<Rightarrow> bool" where
  "queues_sorted scs \<longleftrightarrow> (\<forall>sc \<in> set scs. sorted (map req_clock (msg_queue sc)))"

definition below :: "(nat \<times> queue_message) list \<Rightarrow> stepcompress list \<Rightarrow> bool" where
  "below msgs scs \<longleftrightarrow>
     (\<forall>c \<in> set (batch_clocks msgs). \<forall>sc \<in> set scs. \<forall>m \<in> set (msg_queue sc).
        c \<le> req_clock m)"

section \<open>Proofs\<close>

subsection \<open>Signed 32-bit arithmetic\<close>

lemma sint32_of_int:
  "- (2 ^ 31) \<le> k \<Longrightarrow> k < 2 ^ 31 \<Longrightarrow> sint (word_of_int k :: u32) = k"
  by (simp add: signed_of_int signed_take_bit_int_eq_self)

lemma sint32_range: "- (2 ^ 31) \<le> sint (w :: u32)" "sint w < 2 ^ 31"
  using sint_ge [of w] sint_lt [of w] by simp_all

lemma sdiv_nonneg_pos: "0 \<le> a \<Longrightarrow> 0 < b \<Longrightarrow> (a::int) sdiv b = a div b"
  by (simp add: signed_divide_int_def sgn_if)

lemma sdiv_neg_pos: "a < 0 \<Longrightarrow> 0 < b \<Longrightarrow> (a::int) sdiv b = - ((- a) div b)"
  by (simp add: signed_divide_int_def sgn_if)

lemma div_pos_bounds:
  fixes a b :: int
  assumes "0 \<le> a" "0 < b"
  shows "0 \<le> a div b" "a div b \<le> a"
proof -
  show "0 \<le> a div b" using assms by (simp add: pos_imp_zdiv_nonneg_iff)
  show "a div b \<le> a"
  proof (cases "a = 0")
    case True then show ?thesis by simp
  next
    case False then show ?thesis using assms by (intro int_div_le_self) simp
  qed
qed

lemma ceiling_div_int: "\<lceil>rat_of_int a / rat_of_int b\<rceil> = - ((- a) div b)"
proof -
  have "- (rat_of_int a / rat_of_int b) = rat_of_int (- a) / rat_of_int b" by simp
  then show ?thesis unfolding ceiling_def by (simp only: floor_divide_of_int_eq)
qed

lemma floor_div_int: "\<lfloor>rat_of_int a / rat_of_int b\<rfloor> = a div b"
  by (simp add: floor_divide_of_int_eq)

text \<open>The quotient of a truncating division by a positive divisor fits in 32 bits.\<close>

lemma sdiv32_sint:
  assumes "0 < sint d"
  shows "sint (sdiv32 n d) = sint n sdiv sint d"
proof (cases "0 \<le> sint n")
  case True
  then have e: "sint n sdiv sint d = sint n div sint d"
    using assms by (simp add: sdiv_nonneg_pos)
  have "0 \<le> sint n div sint d" "sint n div sint d \<le> sint n"
    using div_pos_bounds [OF True assms] by auto
  then show ?thesis
    unfolding sdiv32_def e using sint32_range [of n] by (intro sint32_of_int) auto
next
  case False
  then have e: "sint n sdiv sint d = - ((- sint n) div sint d)"
    using assms by (simp add: sdiv_neg_pos)
  have "0 \<le> - sint n" using False by simp
  then have "0 \<le> (- sint n) div sint d" "(- sint n) div sint d \<le> - sint n"
    using div_pos_bounds [of "- sint n" "sint d"] assms by auto
  then show ?thesis
    unfolding sdiv32_def e using sint32_range [of n] by (intro sint32_of_int) auto
qed

lemma sint32_add_sub:
  "- (2 ^ 31) \<le> sint (a::u32) + sint b - 1 \<Longrightarrow> sint a + sint b - 1 < 2 ^ 31
   \<Longrightarrow> sint (a + b - 1) = sint a + sint b - 1"
  using sint32_of_int [of "sint a + sint b - 1"] by simp

lemma sint32_sub_add:
  "- (2 ^ 31) \<le> sint (a::u32) - sint b + 1 \<Longrightarrow> sint a - sint b + 1 < 2 ^ 31
   \<Longrightarrow> sint (a - b + 1) = sint a - sint b + 1"
  using sint32_of_int [of "sint a - sint b + 1"] by simp

lemma ceil_div_shift:
  fixes a d :: int
  assumes "0 < d"
  shows "(a + d - 1) div d = - ((- a) div d)"
proof (rule int_div_pos_eq)
  have "- a = d * ((- a) div d) + (- a) mod d" by simp
  then show "a + d - 1 = d * (- ((- a) div d)) + (d - 1 - (- a) mod d)"
    by (simp add: algebra_simps)
  have "(- a) mod d < d" using assms by simp
  then show "0 \<le> d - 1 - (- a) mod d" by simp
  have "0 \<le> (- a) mod d" using assms by simp
  then show "d - 1 - (- a) mod d < d" by simp
qed

subsection \<open>C8: the rounding helpers\<close>

text \<open>
  C8. For every \<open>int32_t\<close> \<open>n\<close> and every positive \<open>int32_t\<close> \<open>d\<close>, when the
  intermediate sums \<open>n + d - 1\<close> (taken for \<open>n \<ge> 0\<close> by \<open>idiv_up\<close>) and \<open>n - d + 1\<close> (taken
  for \<open>n < 0\<close> by \<open>idiv_down\<close>) do not overflow, \<open>idiv_up n d\<close> is the ceiling of the
  rational \<open>n / d\<close> and \<open>idiv_down n d\<close> is its floor: both round towards plus and minus
  infinity, not towards zero.
\<close>

theorem idiv_rounding:
  assumes d: "0 < sint d"
    and up: "0 \<le> sint n \<Longrightarrow> sint n + sint d - 1 < 2 ^ 31"
    and down: "sint n < 0 \<Longrightarrow> - (2 ^ 31) \<le> sint n - sint d + 1"
  shows "sint (idiv_up n d) = \<lceil>rat_of_int (sint n) / rat_of_int (sint d)\<rceil>
       \<and> sint (idiv_down n d) = \<lfloor>rat_of_int (sint n) / rat_of_int (sint d)\<rfloor>"
proof (cases "0 \<le> sint n")
  case True
  have s: "sint (n + d - 1) = sint n + sint d - 1"
    using True d up by (intro sint32_add_sub) auto
  have "(sint n + sint d - 1) div sint d = - ((- sint n) div sint d)"
    using d by (rule ceil_div_shift)
  then have "sint (idiv_up n d) = - ((- sint n) div sint d)"
    using True d s
    by (simp add: idiv_up_def DIV_ROUND_UP_def word_sle_eq sdiv32_sint sdiv_nonneg_pos)
  moreover have "sint (idiv_down n d) = sint n div sint d"
    using True d by (simp add: idiv_down_def word_sle_eq sdiv32_sint sdiv_nonneg_pos)
  ultimately show ?thesis by (simp only: ceiling_div_int floor_div_int)
next
  case False
  then have neg: "sint n < 0" by simp
  have s: "sint (n - d + 1) = sint n - sint d + 1"
    using neg d down sint32_range [of n] by (intro sint32_sub_add) auto
  have "- ((- (sint n - sint d + 1)) div sint d) = sint n div sint d"
    using ceil_div_shift [OF d, of "- sint n"] by (simp add: algebra_simps)
  then have "sint (idiv_down n d) = sint n div sint d"
    using False neg d s by (simp add: idiv_down_def word_sle_eq sdiv32_sint sdiv_neg_pos)
  moreover have "sint (idiv_up n d) = - ((- sint n) div sint d)"
    using False neg d by (simp add: idiv_up_def word_sle_eq sdiv32_sint sdiv_neg_pos)
  ultimately show ?thesis by (simp only: ceiling_div_int floor_div_int)
qed

theorem idiv_rounding_witness:
  "0 < sint (2 :: u32) \<and> sint (idiv_up (- 7) 2) = - 3 \<and> sint (idiv_down (- 7) 2) = - 4"
  using idiv_rounding [of 2 "- 7"] unfolding ceiling_div_int floor_div_int by simp

subsection \<open>Rounding to \<open>double\<close>\<close>

lemma bit_length_nonneg: "0 \<le> bit_length k"
proof (induction k rule: bit_length.induct)
  case (1 k)
  show ?case
  proof (cases "k \<le> 0")
    case True
    then show ?thesis by (subst bit_length.simps, simp)
  next
    case False
    then have "0 \<le> bit_length (k div 2)" by (rule "1.IH")
    then show ?thesis using False by (subst bit_length.simps, simp)
  qed
qed

lemma bit_length_le: "n < 2 ^ k \<Longrightarrow> bit_length n \<le> int k"
proof (induction k arbitrary: n)
  case 0
  then have "n \<le> 0" by (simp)
  then show ?case by (subst bit_length.simps, simp)
next
  case (Suc k)
  show ?case
  proof (cases "n \<le> 0")
    case True
    then show ?thesis by (subst bit_length.simps, simp)
  next
    case False
    have "n div 2 < 2 ^ k" using Suc.prems by (simp)
    then have "bit_length (n div 2) \<le> int k" by (rule Suc.IH)
    then show ?thesis using False by (subst bit_length.simps, simp)
  qed
qed

lemma bit_length_pos: "0 < n \<Longrightarrow> 1 \<le> bit_length n"
  using bit_length_nonneg [of "n div 2"] by (subst bit_length.simps, simp)

lemma round_even_of_int: "round_even (of_int m) = m"
  by (simp add: round_even_def)

lemma pow2_nonpos: "e \<le> 0 \<Longrightarrow> pow2 e = 1 / 2 ^ nat (- e)"
  by (cases "e = 0", simp_all add: pow2_def)

lemma dbl_round_pos_int:
  assumes "0 < n" and "n < 2 ^ 53"
  shows "dbl_round (of_int n) = Finite (of_int n)"
proof -
  let ?x = "of_int n :: rat"
  have x: "1 \<le> ?x" "\<bar>?x\<bar> = ?x" "?x \<noteq> 0" "0 < ?x" using assms(1) by (simp_all)
  have fl: "floor_log2 \<bar>?x\<bar> = bit_length n - 1"
    using x(1) by (simp add: floor_log2_def)
  have b: "1 \<le> bit_length n" "bit_length n \<le> 53"
    using bit_length_pos [OF assms(1)] bit_length_le [of n 53] assms(2) by (simp_all)
  define e where "e = bit_length n - 1 - 52"
  have e: "e \<le> 0" "- 52 \<le> e" using b by (simp_all add: e_def)
  then have m: "max (floor_log2 \<bar>?x\<bar> - 52) (- 1074) = e"
    unfolding fl e_def by (simp)
  have p: "pow2 e = 1 / 2 ^ nat (- e)" using e(1) by (rule pow2_nonpos)
  have q: "\<bar>?x\<bar> / pow2 e = of_int (n * 2 ^ nat (- e))"
    unfolding p x(2) by (simp)
  have v: "of_int (round_even (\<bar>?x\<bar> / pow2 e)) * pow2 e = ?x"
    unfolding q round_even_of_int unfolding p by (simp)
  have "?x < 2 ^ 53" using assms(2) by (metis of_int_less_iff of_int_numeral of_int_power)
  also have "(2::rat) ^ 53 \<le> 2 ^ 1024" by (rule power_increasing, simp_all)
  finally have big: "\<not> pow2 1024 \<le> ?x" by (simp add: pow2_def)
  show ?thesis
    unfolding dbl_round_def Let_def m v using x(3,4) big by (simp)
qed

lemma dbl_round_zero: "dbl_round 0 = Finite 0"
  by (simp add: dbl_round_def)

lemma dbl_round_int:
  assumes "0 \<le> n" and "n < 2 ^ 53"
  shows "dbl_round (of_int n) = Finite (of_int n)"
proof (cases "n = 0")
  case True
  then show ?thesis by (simp add: dbl_round_zero)
next
  case False
  then have "0 < n" using assms(1) by (simp)
  then show ?thesis using assms(2) by (rule dbl_round_pos_int)
qed

lemma double_of_u64_small: "uint w < 2 ^ 53 \<Longrightarrow> double_of_u64 w = Finite (of_int (uint w))"
  unfolding double_of_u64_def by (rule dbl_round_int, simp_all)

lemma double_of_s64_small:
  "0 \<le> sint w \<Longrightarrow> sint w < 2 ^ 53 \<Longrightarrow> double_of_s64 w = Finite (of_int (sint w))"
  unfolding double_of_s64_def by (rule dbl_round_int)

lemma sds_filter_time: "SDS_FILTER_TIME = Finite (3458764513820541 / 4611686018427387904)"
  unfolding SDS_FILTER_TIME_def by (code_simp)

lemma sds_product_1e6: "dmul SDS_FILTER_TIME (Finite 1000000) = Finite 750"
  unfolding sds_filter_time by (code_simp)

lemma third_freq: "dbl_round (92000 / 3) = Finite (8429589146282667 / 274877906944)"
  by (code_simp)

lemma sds_product_third: "dmul SDS_FILTER_TIME (dbl_round (92000 / 3)) = Finite 23"
  unfolding sds_filter_time third_freq by (code_simp)

lemma expire_1e6: "dmul (Finite 1000000) HISTORY_EXPIRE = Finite 30000000"
  using dbl_round_int [of 30000000] by (simp add: HISTORY_EXPIRE_def)

subsection \<open>The scenario object and the pending step\<close>

lemma calc_last_step_print_time_start:
  "last_step_clock sc = 0 \<Longrightarrow> mcu_freq sc = Finite 1000000 \<Longrightarrow>
   calc_last_step_print_time sc = sc"
  by (simp add: calc_last_step_print_time_def Let_def expire_1e6 double_of_u64_def
      dbl_round_zero)

lemma sc_fresh_eq:
  "sc_fresh = \<lparr>queue = (\<lambda>i. 0), queue_end = 0, queue_pos = 0, queue_next = 0,
      max_error = 25, mcu_freq = Finite 1000000, last_interval = 0,
      last_ideal_step_clock = 0, last_step_clock = 0, msg_queue = [], oid = 7,
      queue_step_msgtag = 11, set_next_step_dir_msgtag = 12, sdir = - 1, invert_sdir = 0,
      next_step_clock = 0, next_step_dir = 0, last_position = 0, history_list = []\<rparr>"
  by (simp add: sc_fresh_def stepcompress_set_time_def stepcompress_fill_def
      stepcompress_alloc_def calc_last_step_print_time_start)

lemma append_pending:
  "next_step_clock sc = 0 \<Longrightarrow>
   stepcompress_append ls sc d clk = Inr (sc\<lparr>next_step_clock := clk, next_step_dir := d\<rparr>)"
  by (simp add: stepcompress_append_def)

lemma append_rollback:
  "next_step_clock sc \<noteq> 0 \<Longrightarrow> d \<noteq> next_step_dir sc \<Longrightarrow>
   dless (double_of_s64 (clk - next_step_clock sc)) (dmul SDS_FILTER_TIME (mcu_freq sc)) \<Longrightarrow>
   stepcompress_append ls sc d clk = Inr (sc\<lparr>next_step_clock := 0, next_step_dir := d\<rparr>)"
  by (simp add: stepcompress_append_def)

lemma filter_500: "dless (double_of_s64 500) (dmul SDS_FILTER_TIME (Finite 1000000))"
  using double_of_s64_small [of 500] by (simp add: sds_product_1e6)

lemma filter_23: "\<not> dless (double_of_s64 23) (dmul SDS_FILTER_TIME (dbl_round (92000 / 3)))"
  using double_of_s64_small [of 23] by (simp add: sds_product_third)

subsection \<open>C9: the reported step direction\<close>

text \<open>
  C9. \<open>stepcompress_get_step_dir\<close> returns the field \<open>next_step_dir\<close>. After every
  \<open>stepcompress_append\<close> that returns 0 this is the direction argument of that call, also
  when the step-dir-step filter discarded the pending step. For a freshly allocated
  object it is 0, while the field \<open>sdir\<close> (the direction last sent to the MCU) is -1: the
  function does not report \<open>sdir\<close>.
\<close>

theorem get_step_dir_last_append:
  "stepcompress_get_step_dir sc = next_step_dir sc
   \<and> (stepcompress_append ls sc d clk = Inr sc' \<longrightarrow> stepcompress_get_step_dir sc' = d)
   \<and> stepcompress_get_step_dir (stepcompress_alloc oid') = 0
   \<and> sdir (stepcompress_alloc oid') \<noteq> stepcompress_get_step_dir (stepcompress_alloc oid')"
  by (auto simp: stepcompress_get_step_dir_def stepcompress_append_def stepcompress_alloc_def
      split: if_splits sum.splits)

theorem get_step_dir_last_append_witness:
  "stepcompress_append ls_none (sc_fresh\<lparr>next_step_clock := 1000, next_step_dir := 1\<rparr>) 0 1500
     = Inr (sc_fresh\<lparr>next_step_clock := 0, next_step_dir := 0\<rparr>)
   \<and> stepcompress_get_step_dir (sc_fresh\<lparr>next_step_clock := 0, next_step_dir := 0\<rparr>) = 0"
proof -
  have a: "stepcompress_append ls_none (sc_fresh\<lparr>next_step_clock := 1000, next_step_dir := 1\<rparr>) 0 1500
     = Inr (sc_fresh\<lparr>next_step_clock := 0, next_step_dir := 0\<rparr>)"
    by (subst append_rollback) (simp_all add: sc_fresh_eq filter_500)
  show ?thesis
    using a get_step_dir_last_append [where ls = ls_none
        and sc = "sc_fresh\<lparr>next_step_clock := 1000, next_step_dir := 1\<rparr>" and d = 0
        and clk = 1500 and sc' = "sc_fresh\<lparr>next_step_clock := 0, next_step_dir := 0\<rparr>"]
    by (simp)
qed

subsection \<open>C4: scenario S3\<close>

text \<open>
  C4 as stated fails: after appending (dir 1, clock 1000) and (dir 0, clock 1500) to the
  scenario object, \<open>next_step_clock\<close> is 0, not 1500.
\<close>

theorem s3_counterexample:
  "append2 ls_none sc_fresh 1 1000 0 1500
     = Inr (sc_fresh\<lparr>next_step_clock := 0, next_step_dir := 0\<rparr>)
   \<and> next_step_clock (sc_fresh\<lparr>next_step_clock := 0, next_step_dir := 0\<rparr>) \<noteq> 1500"
  by (simp add: append2_def append_pending append_rollback sc_fresh_eq filter_500)

text \<open>
  C4, amended. Starting from a freshly allocated object with \<open>mcu_freq = 1e6\<close>, appending
  (dir 1, clock 1000) and then (dir 0, clock 1500) returns 0 twice, queues no step and no
  message, and leaves no step pending: \<open>next_step_dir = 0\<close> and \<open>next_step_clock = 0\<close>. The
  filter drops both the pending step and the new one.
\<close>

theorem s3_rollback:
  "append2 ls (stepcompress_set_time (stepcompress_alloc oid') (Finite 1000000)) 1 1000 0 1500
     = Inr ((stepcompress_alloc oid')
              \<lparr>mcu_freq := Finite 1000000, next_step_clock := 0, next_step_dir := 0\<rparr>)
   \<and> queue_next (stepcompress_alloc oid') = queue_pos (stepcompress_alloc oid')
   \<and> msg_queue (stepcompress_alloc oid') = []"
  by (simp add: append2_def append_pending append_rollback stepcompress_set_time_def
      calc_last_step_print_time_start stepcompress_alloc_def filter_500)

subsection \<open>C5: the step-dir-step filter\<close>

lemma third_append:
  "stepcompress_append ls (sc_third\<lparr>next_step_clock := 1000, next_step_dir := 0\<rparr>) 1 1023
     = Inr (sc_third\<lparr>queue := (\<lambda>i. 0)(0 := 1000), queue_end := 1024, queue_next := 1,
              msg_queue := [\<lparr>msg = [12, 7, 0], min_clock = 0, req_clock = 0\<rparr>],
              sdir := 0, next_step_clock := 1023, next_step_dir := 1\<rparr>)"
proof -
  have g: "grow_alloc 0 1024 = 1024" by (subst grow_alloc.simps, simp)
  show ?thesis
    by (simp add: stepcompress_append_def sc_third_def sc_fresh_eq filter_23
        queue_append_def set_next_step_dir_def queue_flush_def queue_append_extend_def
        queue_make_room_def queue_store_def CLOCK_DIFF_MAX_def QUEUE_START_SIZE_def g
        message_alloc_and_encode_def Let_def)
qed

text \<open>
  C5 as stated fails for \<open>t = 0\<close>: a pending clock of 0 means "no pending step", so the
  second append finds nothing to roll back and stores its own step, here at clock 500.
  It also fails where the product \<open>0.000750 * mcu_freq\<close> is above \<open>delta\<close> and its value
  as a \<open>double\<close> is not: with \<open>mcu_freq = 30666.666666666668\<close>, that is
  \<open>8429589146282667 / 2^38\<close>, and \<open>delta = 23\<close> the \<open>double\<close> product is 23, the step at
  clock 1000 is queued and the step at 1023 is left pending.
\<close>

theorem sds_zero_clock_counterexample:
  "queue_next sc_fresh = queue_pos sc_fresh \<and> next_step_clock sc_fresh = 0
   \<and> mcu_freq sc_fresh = Finite 1000000 \<and> (500 :: rat) < (750 / 1000000) * 1000000
   \<and> append2 ls_none sc_fresh 0 0 1 (0 + 500)
       = Inr (sc_fresh\<lparr>next_step_clock := 500, next_step_dir := 1\<rparr>)
   \<and> next_step_clock (sc_fresh\<lparr>next_step_clock := 500, next_step_dir := 1\<rparr>) \<noteq> 0
   \<and> queue_next sc_third = queue_pos sc_third \<and> next_step_clock sc_third = 0
   \<and> mcu_freq sc_third = Finite (8429589146282667 / 274877906944)
   \<and> (23 :: rat) < (750 / 1000000) * (8429589146282667 / 274877906944)
   \<and> append2 ls_none sc_third 0 1000 1 (1000 + 23)
       = Inr (sc_third\<lparr>queue := (\<lambda>i. 0)(0 := 1000), queue_end := 1024, queue_next := 1,
                msg_queue := [\<lparr>msg = [12, 7, 0], min_clock = 0, req_clock = 0\<rparr>],
                sdir := 0, next_step_clock := 1023, next_step_dir := 1\<rparr>)"
proof -
  have a: "append2 ls_none sc_fresh 0 0 1 (0 + 500)
       = Inr (sc_fresh\<lparr>next_step_clock := 500, next_step_dir := 1\<rparr>)"
    by (simp add: append2_def append_pending sc_fresh_eq)
  have "stepcompress_append ls_none sc_third 0 1000
      = Inr (sc_third\<lparr>next_step_clock := 1000, next_step_dir := 0\<rparr>)"
    by (simp add: append_pending sc_third_def sc_fresh_eq)
  then have b: "append2 ls_none sc_third 0 1000 1 (1000 + 23)
       = Inr (sc_third\<lparr>queue := (\<lambda>i. 0)(0 := 1000), queue_end := 1024, queue_next := 1,
                msg_queue := [\<lparr>msg = [12, 7, 0], min_clock = 0, req_clock = 0\<rparr>],
                sdir := 0, next_step_clock := 1023, next_step_dir := 1\<rparr>)"
    using third_append [of ls_none] by (simp add: append2_def)
  have c: "queue_next sc_fresh = queue_pos sc_fresh" "next_step_clock sc_fresh = 0"
    "mcu_freq sc_fresh = Finite 1000000"
    "queue_next sc_third = queue_pos sc_third" "next_step_clock sc_third = 0"
    "mcu_freq sc_third = Finite (8429589146282667 / 274877906944)"
    by (simp_all add: sc_third_def sc_fresh_eq third_freq)
  show ?thesis
    unfolding a b c by (simp)
qed

text \<open>
  C5, amended. For every object with no pending step, every clock \<open>t \<noteq> 0\<close> and every
  \<open>delta\<close>: appending (dir 0, clock \<open>t\<close>) and then (dir 1, clock \<open>t + delta\<close>) rolls the
  first step back exactly when \<open>delta\<close>, converted to \<open>double\<close> as the code converts the
  difference of the two clocks (an \<open>int64_t\<close>), is below the \<open>double\<close> product
  \<open>SDS_FILTER_TIME * mcu_freq\<close>. Then both calls return 0, neither the step queue nor
  the message queue changes, and \<open>next_step_clock = 0\<close> and \<open>next_step_dir = 1\<close>.
  Otherwise the second call promotes the first step by \<open>queue_append\<close> and leaves its own
  step pending.
\<close>

theorem sds_filter_rollback:
  assumes "next_step_clock sc = 0" and "t \<noteq> 0"
  shows "(dless (double_of_s64 delta) (dmul SDS_FILTER_TIME (mcu_freq sc)) \<longrightarrow>
            append2 ls sc 0 t 1 (t + delta)
              = Inr (sc\<lparr>next_step_clock := 0, next_step_dir := 1\<rparr>)
            \<and> queue_pos (sc\<lparr>next_step_clock := 0, next_step_dir := 1\<rparr>) = queue_pos sc
            \<and> queue_next (sc\<lparr>next_step_clock := 0, next_step_dir := 1\<rparr>) = queue_next sc
            \<and> queue (sc\<lparr>next_step_clock := 0, next_step_dir := 1\<rparr>) = queue sc
            \<and> msg_queue (sc\<lparr>next_step_clock := 0, next_step_dir := 1\<rparr>) = msg_queue sc)
       \<and> (\<not> dless (double_of_s64 delta) (dmul SDS_FILTER_TIME (mcu_freq sc)) \<longrightarrow>
            append2 ls sc 0 t 1 (t + delta)
              = (case queue_append ls (sc\<lparr>next_step_clock := t, next_step_dir := 0\<rparr>) of
                   Inl e \<Rightarrow> Inl e
                 | Inr sc1 \<Rightarrow> Inr (sc1\<lparr>next_step_clock := t + delta, next_step_dir := 1\<rparr>)))"
proof -
  let ?s1 = "sc\<lparr>next_step_clock := t, next_step_dir := 0\<rparr>"
  have first: "stepcompress_append ls sc 0 t = Inr ?s1"
    using assms(1) by (rule append_pending)
  have d: "double_of_s64 (t + delta - next_step_clock ?s1) = double_of_s64 delta"
    "mcu_freq ?s1 = mcu_freq sc"
    by (simp_all)
  show ?thesis
  proof (intro conjI impI)
    assume "dless (double_of_s64 delta) (dmul SDS_FILTER_TIME (mcu_freq sc))"
    then have "stepcompress_append ls ?s1 1 (t + delta)
        = Inr (?s1\<lparr>next_step_clock := 0, next_step_dir := 1\<rparr>)"
      using assms(2) d by (intro append_rollback) (simp_all)
    then show "append2 ls sc 0 t 1 (t + delta)
        = Inr (sc\<lparr>next_step_clock := 0, next_step_dir := 1\<rparr>)"
      unfolding append2_def first by (simp)
  next
    assume "\<not> dless (double_of_s64 delta) (dmul SDS_FILTER_TIME (mcu_freq sc))"
    then have "stepcompress_append ls ?s1 1 (t + delta)
        = (case queue_append ls ?s1 of
             Inl e \<Rightarrow> Inl e
           | Inr sc1 \<Rightarrow> Inr (sc1\<lparr>next_step_clock := t + delta, next_step_dir := 1\<rparr>))"
      using assms(2) d by (simp add: stepcompress_append_def)
    then show "append2 ls sc 0 t 1 (t + delta)
        = (case queue_append ls ?s1 of
             Inl e \<Rightarrow> Inl e
           | Inr sc1 \<Rightarrow> Inr (sc1\<lparr>next_step_clock := t + delta, next_step_dir := 1\<rparr>))"
      unfolding append2_def first by (simp)
  qed (simp_all)
qed

theorem sds_filter_rollback_witness:
  "append2 ls_none sc_fresh 0 1000 1 (1000 + 500)
     = Inr (sc_fresh\<lparr>next_step_clock := 0, next_step_dir := 1\<rparr>)
   \<and> queue_next (sc_fresh\<lparr>next_step_clock := 0, next_step_dir := 1\<rparr>) = queue_next sc_fresh
   \<and> msg_queue (sc_fresh\<lparr>next_step_clock := 0, next_step_dir := 1\<rparr>) = msg_queue sc_fresh
   \<and> append2 ls_none sc_third 0 1000 1 (1000 + 23)
       = (case queue_append ls_none (sc_third\<lparr>next_step_clock := 1000, next_step_dir := 0\<rparr>) of
            Inl e \<Rightarrow> Inl e
          | Inr sc1 \<Rightarrow> Inr (sc1\<lparr>next_step_clock := 1000 + 23, next_step_dir := 1\<rparr>))"
proof -
  have a: "next_step_clock sc_fresh = 0" "mcu_freq sc_fresh = Finite 1000000"
    "next_step_clock sc_third = 0" "mcu_freq sc_third = dbl_round (92000 / 3)"
    by (simp_all add: sc_third_def sc_fresh_eq)
  show ?thesis
    using sds_filter_rollback [of sc_fresh 1000 500 ls_none]
      sds_filter_rollback [of sc_third 1000 23 ls_none]
    unfolding a by (simp add: filter_500 filter_23)
qed

subsection \<open>C2: the clocks of a queue_step message\<close>

text \<open>
  C2 as stated fails: for the move \<open>{interval = 100, count = 5, add = 0}\<close> added to the
  scenario object at first clock 100, the message carries \<open>min_clock = 0\<close>, while the
  ramp ends at clock 500.
\<close>

theorem add_move_min_clock_counterexample:
  "min_clock (last (msg_queue
       (add_move sc_fresh (last_step_clock sc_fresh + 100) \<lparr>interval = 100, count = 5, add = 0\<rparr>))) = 0
   \<and> last_step_clock
       (add_move sc_fresh (last_step_clock sc_fresh + 100) \<lparr>interval = 100, count = 5, add = 0\<rparr>) = 500"
  by (simp add: add_move_def sc_fresh_eq Let_def message_alloc_and_encode_def sdiv32_def)

text \<open>
  C2, amended. The \<open>min_clock\<close> that \<open>add_move\<close> stores on the queue_step message is the
  object's \<open>last_step_clock\<close> before the move, that is the clock at which the previous
  move ends. The clock at which this move ends, \<open>first_clock\<close> plus the 32-bit sum
  \<open>ticks\<close> of the remaining \<open>count - 1\<close> intervals, becomes the new \<open>last_step_clock\<close>.
\<close>

theorem add_move_min_clock:
  "min_clock (last (msg_queue (add_move sc fc mv))) = last_step_clock sc
   \<and> last_step_clock (add_move sc fc mv)
       = fc + ucast (scast (add mv) * sdiv32 (ucast (count mv) * (ucast (count mv) - 1)) 2
                     + interval mv * (ucast (count mv) - 1) :: u32)"
  by (simp add: add_move_def Let_def)

subsection \<open>C10: past positions outside the history\<close>

lemma find_past_loop_before_all:
  "\<forall>hs \<in> set hl. clock < first_clock hs \<Longrightarrow>
   find_past_loop qs hl clock lp = Inr (if hl = [] then lp else start_position (last hl))"
  by (induction hl arbitrary: lp) (auto)

text \<open>
  C10. For every clock, \<open>stepcompress_find_past_position\<close> returns the current
  \<open>last_position\<close> when the history list is empty, and the \<open>start_position\<close> of the
  oldest entry (the last of the list) when the clock is strictly earlier than the
  \<open>first_clock\<close> of every entry. In both cases it returns a value: it neither divides
  nor reads an entry that is not in the list.
\<close>

theorem find_past_position_outside:
  "(history_list sc = [] \<longrightarrow>
      stepcompress_find_past_position qs sc clock = Inr (last_position sc))
   \<and> (history_list sc \<noteq> [] \<and> (\<forall>hs \<in> set (history_list sc). clock < first_clock hs) \<longrightarrow>
      stepcompress_find_past_position qs sc clock
        = Inr (start_position (last (history_list sc))))"
  by (simp add: stepcompress_find_past_position_def find_past_loop_before_all)

theorem find_past_position_outside_witness:
  "stepcompress_find_past_position qs_none
     (sc_fresh\<lparr>history_list :=
        [\<lparr>first_clock = 200, last_clock = 300, start_position = 5, step_count = 2,
          hs_interval = 100, hs_add = 0\<rparr>,
         \<lparr>first_clock = 100, last_clock = 100, start_position = 4, step_count = 1,
          hs_interval = 100, hs_add = 0\<rparr>]\<rparr>) 50 = Inr 4"
  using find_past_position_outside [of
      "sc_fresh\<lparr>history_list :=
        [\<lparr>first_clock = 200, last_clock = 300, start_position = 5, step_count = 2,
          hs_interval = 100, hs_add = 0\<rparr>,
         \<lparr>first_clock = 100, last_clock = 100, start_position = 4, step_count = 1,
          hs_interval = 100, hs_add = 0\<rparr>]\<rparr>" qs_none 50]
  by (simp)

subsection \<open>History pruning keeps every other field\<close>












subsection \<open>One round of the flush loop\<close>



lemma queue_flush_loop_step:
  assumes "last_step_clock sc < mc" and "wrap_compress ls sc = Inr mv"
    and "check_line sc mv = Inr ()" and "queue_pos sc + uint (count mv) < queue_next sc"
  shows "queue_flush_loop ls sc mc =
     queue_flush_loop ls ((flush_next sc mv)\<lparr>queue_pos := queue_pos sc + uint (count mv)\<rparr>) mc"
proof -
  have "\<not> queue_next sc \<le> queue_pos sc + uint (count mv)"
    using assms(4) by (simp)
  then show ?thesis
    by (subst queue_flush_loop.simps, simp add: assms(1-3) Let_def flush_next_def)
qed

lemma queue_flush_loop_last:
  assumes "last_step_clock sc < mc" and "wrap_compress ls sc = Inr mv"
    and "check_line sc mv = Inr ()" and "queue_next sc \<le> queue_pos sc + uint (count mv)"
  shows "queue_flush_loop ls sc mc = Inr ((flush_next sc mv)\<lparr>queue_pos := 0, queue_next := 0\<rparr>)"
  by (subst queue_flush_loop.simps, simp add: assms Let_def flush_next_def)

lemma queue_flush_loop_error:
  assumes "last_step_clock sc < mc" and "wrap_compress ls sc = Inr mv"
    and "check_line sc mv = Inl e"
  shows "queue_flush_loop ls sc mc = Inl e"
  by (insert assms, (subst queue_flush_loop.simps, simp))







subsection \<open>C7: a step far in the future\<close>






subsection \<open>The run with two close steps\<close>

lemma grow_alloc_same: "in_use < alloc \<Longrightarrow> grow_alloc in_use alloc = alloc"
  by (subst grow_alloc.simps, simp)

lemma first_append: "stepcompress_append ls sc_fresh 1 100000
    = Inr (sc_fresh\<lparr>next_step_clock := 100000, next_step_dir := 1\<rparr>)"
  by (simp add: append_pending sc_fresh_eq)

lemma second_append:
  "stepcompress_append ls (sc_fresh\<lparr>next_step_clock := 100000, next_step_dir := 1\<rparr>) 1 100008
    = Inr sc_two"
  by (simp add: stepcompress_append_def queue_append_def set_next_step_dir_def
      queue_flush_def queue_append_extend_def queue_make_room_def queue_store_def
      CLOCK_DIFF_MAX_def QUEUE_START_SIZE_def
      grow_alloc_same message_alloc_and_encode_def Let_def sc_two_def sc_fresh_eq)

lemma two_appends: "append2 ls sc_fresh 1 100000 1 100008 = Inr sc_two"
  by (simp only: append2_def first_append second_append sum.case)

lemma promote_second: "queue_append ls sc_two = Inr sc_queued"
  by (simp add: queue_append_def queue_store_def CLOCK_DIFF_MAX_def sc_queued_def
      sc_two_def sc_fresh_eq)

lemma qr_init_two: "qr_init sc_queued 46000 = qr_two" "qr_init sc_queued 65535 = qr_two"
  by (simp_all add: qr_init_def sc_queued_def sc_two_def sc_fresh_eq qr_two_def)

lemma qr_init_second: "qr_init sc_second 46000 = qr_second" "qr_init sc_second 65535 = qr_second"
  by (simp_all add: qr_init_def sc_second_def sc_queued_def sc_two_def sc_fresh_eq
      qr_second_def)

lemma compress_two: "compress_leastsquares ls qr_two = Inr \<lparr>am_add = 99988, am_count = 1\<rparr>"
  by (code_simp)

lemma after_first: "qr_after_move qr_two \<lparr>am_add = 99988, am_count = 1\<rparr> = qr_second"
  by (simp add: qr_after_move_def qr_two_def qr_second_def Let_def sdiv32_def)

lemma compress_second: "compress_leastsquares ls qr_second = Inr \<lparr>am_add = - 99980, am_count = 1\<rparr>"
  by (code_simp)

lemma wrap_two: "wrap_compress ls sc_queued = Inr \<lparr>interval = 99988, count = 1, add = 0\<rparr>"
proof -
  have e: "qr_pos qr_two = 0" "qr_end qr_two = 2" "qr_last_interval qr_two = 0"
    by (simp_all add: qr_two_def)
  show ?thesis
    unfolding wrap_compress_def qr_init_two Let_def compress_two
    by (simp add: after_first compress_second e word_sle_eq)
qed

lemma wrap_second: "wrap_compress ls sc_second = Inr \<lparr>interval = 8, count = 1, add = 0\<rparr>"
proof -
  have e: "qr_pos qr_second = 1" "qr_end qr_second = 2" "qr_last_interval qr_second = 99988"
    by (simp_all add: qr_second_def)
  show ?thesis
    unfolding wrap_compress_def qr_init_second Let_def compress_second
    by (simp add: e)
qed

lemma check_first: "check_line sc_queued \<lparr>interval = 99988, count = 1, add = 0\<rparr> = Inr ()"
proof -
  have "check_loop qr_two \<lparr>interval = 99988, count = 1, add = 0\<rparr> 99988 0 0 = Inr ()"
    by (code_simp)
  then show ?thesis
    unfolding check_line_def qr_init_two by (simp)
qed

lemma check_second: "check_line sc_second \<lparr>interval = 8, count = 1, add = 0\<rparr> = Inl ERROR_RET"
proof -
  have "check_loop qr_second \<lparr>interval = 8, count = 1, add = 0\<rparr> 8 0 0 = Inl ERROR_RET"
    by (code_simp)
  then show ?thesis
    unfolding check_line_def qr_init_second by (simp)
qed

lemma flush_first_move:
  "queue_flush_loop ls sc_queued 200000 = queue_flush_loop ls sc_second 200000"
proof -
  have f: "last_step_clock sc_queued < 200000" "queue_pos sc_queued = 0"
    "queue_next sc_queued = 2"
    by (simp_all add: sc_queued_def sc_two_def sc_fresh_eq)
  have "(flush_next sc_queued \<lparr>interval = 99988, count = 1, add = 0\<rparr>)\<lparr>queue_pos := 1\<rparr>
        = sc_second"
    by (simp add: flush_next_def add_move_def Let_def message_alloc_and_encode_def
        sdiv32_def CLOCK_DIFF_MAX_def sc_second_def sc_queued_def sc_two_def sc_fresh_eq)
  then show ?thesis
    using queue_flush_loop_step [of sc_queued 200000 ls "\<lparr>interval = 99988, count = 1, add = 0\<rparr>"]
    by (simp add: wrap_two check_first f)
qed

lemma flush_second_move: "queue_flush_loop ls sc_second 200000 = Inl ERROR_RET"
proof -
  have "last_step_clock sc_second < 200000"
    by (simp add: sc_second_def)
  then show ?thesis
    using wrap_second check_second by (rule queue_flush_loop_error)
qed

lemma flush_two: "stepcompress_flush ls sc_two 200000 = Inl ERROR_RET"
proof -
  have "\<not> queue_next sc_queued \<le> queue_pos sc_queued"
    by (simp add: sc_queued_def sc_two_def sc_fresh_eq)
  then have "queue_flush ls sc_queued 200000 = Inl ERROR_RET"
    unfolding queue_flush_def flush_first_move flush_second_move
    by (simp)
  moreover have "next_step_clock sc_two \<noteq> 0 \<and> next_step_clock sc_two \<le> 200000"
    by (simp add: sc_two_def)
  ultimately show ?thesis
    unfolding stepcompress_flush_def by (simp add: promote_second)
qed

subsection \<open>C1: verification of the produced moves\<close>

text \<open>
  C1. The code breaks the claim: on the scenario object (\<open>max_error = 25\<close>), after a
  step at clock 100000 and a step at clock 100008, the flush emits the first step at
  99988 and then \<open>wrap_compress\<close> produces \<open>{interval = 8, count = 1, add = 0}\<close> for the
  second, outside its window \<open>[10, 20]\<close>: \<open>check_line\<close> rejects the move and
  \<open>stepcompress_flush\<close> returns \<open>ERROR_RET\<close>.
\<close>

theorem invalid_move_counterexample:
  "append2 ls_none sc_fresh 1 100000 1 100008 = Inr sc_two
   \<and> stepcompress_flush ls_none sc_two 200000 = Inl ERROR_RET
   \<and> wrap_compress ls_none sc_second = Inr \<lparr>interval = 8, count = 1, add = 0\<rparr>
   \<and> minmax_point (qr_init sc_second 65535) 0 = \<lparr>minp = 10, maxp = 20\<rparr>
   \<and> check_line sc_second \<lparr>interval = 8, count = 1, add = 0\<rparr> = Inl ERROR_RET"
proof -
  have "minmax_point qr_second 0 = \<lparr>minp = 10, maxp = 20\<rparr>"
    by (code_simp)
  then show ?thesis
    by (simp only: two_appends flush_two wrap_second check_second qr_init_second simp_thms)
qed

subsection \<open>The message with the lowest clock\<close>

lemma find_lowest_spec:
  "find_lowest scs k r q = q
     \<and> (\<forall>sc \<in> set scs. msg_queue sc \<noteq> [] \<longrightarrow> r \<le> req_clock (hd (msg_queue sc)))
   \<or> (\<exists>j m. find_lowest scs k r q = Some (k + j, m) \<and> j < length scs
         \<and> msg_queue (scs ! j) \<noteq> [] \<and> hd (msg_queue (scs ! j)) = m \<and> req_clock m < r
         \<and> (\<forall>sc \<in> set scs. msg_queue sc \<noteq> [] \<longrightarrow> req_clock m \<le> req_clock (hd (msg_queue sc))))"
proof (induction scs arbitrary: k r q)
  case Nil
  show ?case by (simp)
next
  case (Cons sc scs)
  show ?case
  proof (cases "msg_queue sc")
    case Nil
    then have e: "find_lowest (sc # scs) k r q = find_lowest scs (Suc k) r q"
      by (simp)
    from Cons.IH [of "Suc k" r q] show ?thesis
    proof (elim disjE conjE exE)
      assume "find_lowest scs (Suc k) r q = q"
        and "\<forall>sc \<in> set scs. msg_queue sc \<noteq> [] \<longrightarrow> r \<le> req_clock (hd (msg_queue sc))"
      then show ?thesis using Nil e by (simp)
    next
      fix j m
      assume "find_lowest scs (Suc k) r q = Some (Suc k + j, m)" "j < length scs"
        "msg_queue (scs ! j) \<noteq> []" "hd (msg_queue (scs ! j)) = m" "req_clock m < r"
        "\<forall>sc \<in> set scs. msg_queue sc \<noteq> [] \<longrightarrow> req_clock m \<le> req_clock (hd (msg_queue sc))"
      then have "find_lowest (sc # scs) k r q = Some (k + Suc j, m) \<and> Suc j < length (sc # scs)
         \<and> msg_queue ((sc # scs) ! Suc j) \<noteq> [] \<and> hd (msg_queue ((sc # scs) ! Suc j)) = m
         \<and> req_clock m < r
         \<and> (\<forall>sc \<in> set (sc # scs). msg_queue sc \<noteq> []
               \<longrightarrow> req_clock m \<le> req_clock (hd (msg_queue sc)))"
        using Nil e by (simp)
      then show ?thesis by (blast)
    qed
  next
    case (Cons m0 ms)
    note q0 = this
    show ?thesis
    proof (cases "req_clock m0 < r")
      case True
      then have e: "find_lowest (sc # scs) k r q
          = find_lowest scs (Suc k) (req_clock m0) (Some (k, m0))"
        using q0 by (simp)
      from Cons.IH [of "Suc k" "req_clock m0" "Some (k, m0)"] show ?thesis
      proof (elim disjE conjE exE)
        assume "find_lowest scs (Suc k) (req_clock m0) (Some (k, m0)) = Some (k, m0)"
          and "\<forall>sc \<in> set scs. msg_queue sc \<noteq> []
                 \<longrightarrow> req_clock m0 \<le> req_clock (hd (msg_queue sc))"
        then have "find_lowest (sc # scs) k r q = Some (k + 0, m0) \<and> 0 < length (sc # scs)
           \<and> msg_queue ((sc # scs) ! 0) \<noteq> [] \<and> hd (msg_queue ((sc # scs) ! 0)) = m0
           \<and> req_clock m0 < r
           \<and> (\<forall>sc \<in> set (sc # scs). msg_queue sc \<noteq> []
                 \<longrightarrow> req_clock m0 \<le> req_clock (hd (msg_queue sc)))"
          using q0 e True by (simp)
        then show ?thesis by (blast)
      next
        fix j m
        assume "find_lowest scs (Suc k) (req_clock m0) (Some (k, m0)) = Some (Suc k + j, m)"
          "j < length scs" "msg_queue (scs ! j) \<noteq> []" "hd (msg_queue (scs ! j)) = m"
          "req_clock m < req_clock m0"
          "\<forall>sc \<in> set scs. msg_queue sc \<noteq> []
             \<longrightarrow> req_clock m \<le> req_clock (hd (msg_queue sc))"
        then have "find_lowest (sc # scs) k r q = Some (k + Suc j, m)
           \<and> Suc j < length (sc # scs)
           \<and> msg_queue ((sc # scs) ! Suc j) \<noteq> [] \<and> hd (msg_queue ((sc # scs) ! Suc j)) = m
           \<and> req_clock m < r
           \<and> (\<forall>sc \<in> set (sc # scs). msg_queue sc \<noteq> []
                 \<longrightarrow> req_clock m \<le> req_clock (hd (msg_queue sc)))"
          using q0 e True by (auto)
        then show ?thesis by (blast)
      qed
    next
      case False
      then have e: "find_lowest (sc # scs) k r q = find_lowest scs (Suc k) r q"
        using q0 by (simp)
      from Cons.IH [of "Suc k" r q] show ?thesis
      proof (elim disjE conjE exE)
        assume "find_lowest scs (Suc k) r q = q"
          and "\<forall>sc \<in> set scs. msg_queue sc \<noteq> [] \<longrightarrow> r \<le> req_clock (hd (msg_queue sc))"
        moreover have "r \<le> req_clock (hd (msg_queue sc))"
          using q0 False by (simp add: not_less)
        ultimately have "find_lowest (sc # scs) k r q = q
            \<and> (\<forall>s \<in> set (sc # scs). msg_queue s \<noteq> []
                  \<longrightarrow> r \<le> req_clock (hd (msg_queue s)))"
          unfolding e by (simp)
        then show ?thesis by (blast)
      next
        fix j m
        assume "find_lowest scs (Suc k) r q = Some (Suc k + j, m)" "j < length scs"
          "msg_queue (scs ! j) \<noteq> []" "hd (msg_queue (scs ! j)) = m" "req_clock m < r"
          "\<forall>sc \<in> set scs. msg_queue sc \<noteq> []
             \<longrightarrow> req_clock m \<le> req_clock (hd (msg_queue sc))"
        then have "find_lowest (sc # scs) k r q = Some (k + Suc j, m)
           \<and> Suc j < length (sc # scs)
           \<and> msg_queue ((sc # scs) ! Suc j) \<noteq> [] \<and> hd (msg_queue ((sc # scs) ! Suc j)) = m
           \<and> req_clock m < r
           \<and> (\<forall>sc \<in> set (sc # scs). msg_queue sc \<noteq> []
                 \<longrightarrow> req_clock m \<le> req_clock (hd (msg_queue sc)))"
          using q0 e False by (auto)
        then show ?thesis by (blast)
      qed
    qed
  qed
qed

lemma find_lowest_Some:
  assumes "find_lowest scs 0 r None = Some (i, qm)"
  shows "i < length scs" and "msg_queue (scs ! i) = qm # tl (msg_queue (scs ! i))"
    and "\<forall>sc \<in> set scs. msg_queue sc \<noteq> [] \<longrightarrow> req_clock qm \<le> req_clock (hd (msg_queue sc))"
proof -
  from find_lowest_spec [of scs 0 r None] assms
  obtain j m where "Some (i, qm) = Some (0 + j, m)" "j < length scs"
    "msg_queue (scs ! j) \<noteq> []" "hd (msg_queue (scs ! j)) = m"
    "\<forall>sc \<in> set scs. msg_queue sc \<noteq> [] \<longrightarrow> req_clock m \<le> req_clock (hd (msg_queue sc))"
    by (auto)
  then show "i < length scs" and "msg_queue (scs ! i) = qm # tl (msg_queue (scs ! i))"
    and "\<forall>sc \<in> set scs. msg_queue sc \<noteq> [] \<longrightarrow> req_clock qm \<le> req_clock (hd (msg_queue sc))"
    by (auto)
qed

lemma list_del_first_nth:
  "length (list_del_first scs i) = length scs"
  "i < length scs \<Longrightarrow> msg_queue (list_del_first scs i ! i) = tl (msg_queue (scs ! i))"
  "k \<noteq> i \<Longrightarrow> list_del_first scs i ! k = scs ! k"
  by (simp_all add: list_del_first_def)

lemma list_del_first_queues:
  assumes "sc' \<in> set (list_del_first scs i)"
  shows "\<exists>sc \<in> set scs. msg_queue sc' = msg_queue sc \<or> msg_queue sc' = tl (msg_queue sc)"
proof -
  obtain k where k: "k < length scs" "sc' = list_del_first scs i ! k"
    using assms by (auto simp: in_set_conv_nth list_del_first_nth(1))
  show ?thesis
  proof (cases "k = i")
    case True
    then have "msg_queue sc' = tl (msg_queue (scs ! i))"
      using k by (simp add: list_del_first_nth)
    then show ?thesis using k True by (auto)
  next
    case False
    then have "sc' = scs ! k" using k by (simp add: list_del_first_nth)
    then show ?thesis using k by (auto)
  qed
qed

lemma sorted_head_least:
  assumes "sorted (map req_clock q)" and "m \<in> set q"
  shows "req_clock (hd q) \<le> req_clock m"
  using assms by (cases q, auto)

lemma pick_sorted:
  assumes "queues_sorted scs"
  shows "queues_sorted (list_del_first scs i)"
  unfolding queues_sorted_def
proof
  fix sc' assume "sc' \<in> set (list_del_first scs i)"
  then obtain sc where sc: "sc \<in> set scs"
    and q: "msg_queue sc' = msg_queue sc \<or> msg_queue sc' = tl (msg_queue sc)"
    using list_del_first_queues by (blast)
  have "sorted (map req_clock (msg_queue sc))"
    using assms sc by (simp add: queues_sorted_def)
  then have "sorted (map req_clock (tl (msg_queue sc)))"
    by (cases "msg_queue sc", simp_all)
  then show "sorted (map req_clock (msg_queue sc'))"
    using q \<open>sorted (map req_clock (msg_queue sc))\<close> by (auto)
qed

lemma pick_least:
  assumes "find_lowest scs 0 r None = Some (i, qm)" and "queues_sorted scs"
    and "sc \<in> set scs" and "m \<in> set (msg_queue sc)"
  shows "req_clock qm \<le> req_clock m"
proof -
  have ne: "msg_queue sc \<noteq> []" using assms(4) by (auto)
  have "req_clock qm \<le> req_clock (hd (msg_queue sc))"
    using find_lowest_Some(3) [OF assms(1)] assms(3) ne by (blast)
  also have "\<dots> \<le> req_clock m"
    using assms(2,3,4) by (intro sorted_head_least, simp_all add: queues_sorted_def)
  finally show ?thesis .
qed

lemma pick_below:
  assumes "find_lowest scs 0 r None = Some (i, qm)" and "queues_sorted scs"
    and "below msgs scs"
  shows "below (msgs @ [(i, qm\<lparr>min_clock := a\<rparr>)]) (list_del_first scs i)"
  unfolding below_def
proof (intro ballI)
  fix c sc' m
  assume c: "c \<in> set (batch_clocks (msgs @ [(i, qm\<lparr>min_clock := a\<rparr>)]))"
    and "sc' \<in> set (list_del_first scs i)" and m: "m \<in> set (msg_queue sc')"
  then obtain sc where sc: "sc \<in> set scs"
    and q: "msg_queue sc' = msg_queue sc \<or> msg_queue sc' = tl (msg_queue sc)"
    using list_del_first_queues by (blast)
  have m': "m \<in> set (msg_queue sc)"
    using q m by (cases "msg_queue sc", auto)
  from c consider "c \<in> set (batch_clocks msgs)" | "c = req_clock qm"
    by (auto simp: batch_clocks_def)
  then show "c \<le> req_clock m"
  proof cases
    case 1
    then show ?thesis using assms(3) sc m' by (auto simp: below_def)
  next
    case 2
    then show ?thesis using pick_least [OF assms(1,2) sc m'] by (simp)
  qed
qed

lemma pick_batch_sorted:
  assumes "find_lowest scs 0 r None = Some (i, qm)"
    and "below msgs scs" and "sorted (batch_clocks msgs)"
  shows "sorted (batch_clocks (msgs @ [(i, qm\<lparr>min_clock := a\<rparr>)]))"
proof -
  have i: "i < length scs" and q: "msg_queue (scs ! i) = qm # tl (msg_queue (scs ! i))"
    using find_lowest_Some [OF assms(1)] by (simp_all)
  have "scs ! i \<in> set scs" using i by (simp)
  moreover have "qm \<in> set (msg_queue (scs ! i))"
    using q by (metis list.set_intros(1))
  ultimately have "\<forall>c \<in> set (batch_clocks msgs). c \<le> req_clock qm"
    using assms(2) unfolding below_def by (blast)
  then show ?thesis
    using assms(3) by (simp add: batch_clocks_def sorted_append)
qed

lemma pick_taken:
  assumes "find_lowest scs 0 r None = Some (i, qm)" and "k < length scs"
  shows "map sent (taken_from k (msgs @ [(i, qm\<lparr>min_clock := a\<rparr>)]))
           @ map sent (msg_queue (list_del_first scs i ! k))
         = map sent (taken_from k msgs) @ map sent (msg_queue (scs ! k))"
proof (cases "k = i")
  case True
  have q: "msg_queue (scs ! i) = qm # tl (msg_queue (scs ! i))"
    using find_lowest_Some(2) [OF assms(1)] .
  have "map sent (msg_queue (scs ! i)) = sent qm # map sent (tl (msg_queue (scs ! i)))"
    by (subst q, simp)
  then show ?thesis
    using True assms(2) by (simp add: taken_from_def list_del_first_nth sent_def)
next
  case False
  then show ?thesis
    by (simp add: taken_from_def list_del_first_nth)
qed

lemma sync_loop_cases:
  assumes "sync_loop maxc scs mc mv msgs = Inr (scs', mc', batch)"
  shows "(scs' = scs \<and> batch = msgs)
     \<or> (\<exists>i qm. find_lowest scs 0 maxc None = Some (i, qm)
           \<and> \<not> (min_clock qm \<noteq> 0 \<and> mv < req_clock qm) \<and> mc \<noteq> []
           \<and> sync_loop maxc (list_del_first scs i)
                (if min_clock qm \<noteq> 0 then heap_replace_loop mc (min_clock qm) 0 else mc) mv
                (msgs @ [(i, qm\<lparr>min_clock := mc ! 0\<rparr>)]) = Inr (scs', mc', batch))"
proof (cases "find_lowest scs 0 maxc None")
  case None
  then have "sync_loop maxc scs mc mv msgs = Inr (scs, mc, msgs)"
    by (subst sync_loop.simps, simp)
  then show ?thesis using assms by (simp)
next
  case (Some p)
  obtain i qm where p: "p = (i, qm)" by (cases p)
  show ?thesis
  proof (cases "min_clock qm \<noteq> 0 \<and> mv < req_clock qm")
    case True
    then have "sync_loop maxc scs mc mv msgs = Inr (scs, mc, msgs)"
      using Some p by (subst sync_loop.simps, simp)
    then show ?thesis using assms by (simp)
  next
    case False
    note stop = this
    show ?thesis
    proof (cases "mc = []")
      case True
      then have "sync_loop maxc scs mc mv msgs = Inl OutOfBounds"
        using Some p stop by (subst sync_loop.simps, simp)
      then show ?thesis using assms by (simp)
    next
      case False
      then have "sync_loop maxc scs mc mv msgs
          = sync_loop maxc (list_del_first scs i)
                (if min_clock qm \<noteq> 0 then heap_replace_loop mc (min_clock qm) 0 else mc) mv
                (msgs @ [(i, qm\<lparr>min_clock := mc ! 0\<rparr>)])"
        using Some p stop by (subst sync_loop.simps, auto simp: Let_def)
      then show ?thesis using assms Some p stop False by (simp)
    qed
  qed
qed

lemma sync_loop_order:
  assumes "sync_loop maxc scs mc mv msgs = Inr (scs', mc', batch)"
    and "queues_sorted scs" and "below msgs scs" and "sorted (batch_clocks msgs)"
  shows "sorted (batch_clocks batch) \<and> length scs' = length scs
     \<and> (\<forall>k < length scs.
          map sent (taken_from k batch) @ map sent (msg_queue (scs' ! k))
          = map sent (taken_from k msgs) @ map sent (msg_queue (scs ! k)))"
  using assms
proof (induction maxc scs mc mv msgs rule: sync_loop.induct)
  case (1 maxc scs mc mv msgs)
  from sync_loop_cases [OF "1.prems"(1)]
  consider "scs' = scs \<and> batch = msgs"
    | i qm where "find_lowest scs 0 maxc None = Some (i, qm)"
        "\<not> (min_clock qm \<noteq> 0 \<and> mv < req_clock qm)" "mc \<noteq> []"
        "sync_loop maxc (list_del_first scs i)
           (if min_clock qm \<noteq> 0 then heap_replace_loop mc (min_clock qm) 0 else mc) mv
           (msgs @ [(i, qm\<lparr>min_clock := mc ! 0\<rparr>)]) = Inr (scs', mc', batch)"
    by (blast)
  then show ?case
  proof cases
    case 1
    then show ?thesis using "1.prems"(4) by (simp)
  next
    case 2
    let ?msgs = "msgs @ [(i, qm\<lparr>min_clock := mc ! 0\<rparr>)]"
    have ih: "sorted (batch_clocks batch) \<and> length scs' = length (list_del_first scs i)
       \<and> (\<forall>k < length (list_del_first scs i).
            map sent (taken_from k batch) @ map sent (msg_queue (scs' ! k))
            = map sent (taken_from k ?msgs) @ map sent (msg_queue (list_del_first scs i ! k)))"
    proof (rule "1.IH" [OF 2(1) refl 2(2) 2(3) refl refl refl 2(4)])
      show "queues_sorted (list_del_first scs i)"
        using "1.prems"(2) by (rule pick_sorted)
      show "below ?msgs (list_del_first scs i)"
        using 2(1) "1.prems"(2,3) by (rule pick_below)
      show "sorted (batch_clocks ?msgs)"
        using 2(1) "1.prems"(3,4) by (rule pick_batch_sorted)
    qed
    have "\<forall>k < length scs.
          map sent (taken_from k batch) @ map sent (msg_queue (scs' ! k))
          = map sent (taken_from k msgs) @ map sent (msg_queue (scs ! k))"
    proof (intro allI impI)
      fix k assume k: "k < length scs"
      then have "map sent (taken_from k batch) @ map sent (msg_queue (scs' ! k))
            = map sent (taken_from k ?msgs) @ map sent (msg_queue (list_del_first scs i ! k))"
        using ih by (simp add: list_del_first_nth(1))
      also have "\<dots> = map sent (taken_from k msgs) @ map sent (msg_queue (scs ! k))"
        using 2(1) k by (rule pick_taken)
      finally show "map sent (taken_from k batch) @ map sent (msg_queue (scs' ! k))
          = map sent (taken_from k msgs) @ map sent (msg_queue (scs ! k))" .
    qed
    then show ?thesis using ih by (simp add: list_del_first_nth(1))
  qed
qed

subsection \<open>Two runs of the synchronization\<close>

lemma sc_late_reachable:
  "stepcompress_reset ls sc_fresh 1000
     = Inr (sc_fresh\<lparr>last_step_clock := 1000\<rparr>)"
  "stepcompress_queue_msg ls (sc_fresh\<lparr>last_step_clock := 1000\<rparr>) [1]
     = Inr (sc_fresh\<lparr>last_step_clock := 1000,
              msg_queue := [\<lparr>msg = [1], min_clock = 0, req_clock = 1000\<rparr>]\<rparr>)"
  "stepcompress_reset ls (sc_fresh\<lparr>last_step_clock := 1000,
              msg_queue := [\<lparr>msg = [1], min_clock = 0, req_clock = 1000\<rparr>]\<rparr>) 0
     = Inr (sc_fresh\<lparr>msg_queue := [\<lparr>msg = [1], min_clock = 0, req_clock = 1000\<rparr>]\<rparr>)"
  "stepcompress_append ls
     (sc_fresh\<lparr>msg_queue := [\<lparr>msg = [1], min_clock = 0, req_clock = 1000\<rparr>]\<rparr>) 1 200000
     = Inr sc_late"
proof -
  have c: "double_of_u64 1000 = Finite 1000" "double_of_u64 0 = Finite 0"
    using double_of_u64_small [of 1000] double_of_u64_small [of 0] by (simp_all)
  show "stepcompress_reset ls sc_fresh 1000
     = Inr (sc_fresh\<lparr>last_step_clock := 1000\<rparr>)"
    "stepcompress_queue_msg ls (sc_fresh\<lparr>last_step_clock := 1000\<rparr>) [1]
     = Inr (sc_fresh\<lparr>last_step_clock := 1000,
              msg_queue := [\<lparr>msg = [1], min_clock = 0, req_clock = 1000\<rparr>]\<rparr>)"
    "stepcompress_reset ls (sc_fresh\<lparr>last_step_clock := 1000,
              msg_queue := [\<lparr>msg = [1], min_clock = 0, req_clock = 1000\<rparr>]\<rparr>) 0
     = Inr (sc_fresh\<lparr>msg_queue := [\<lparr>msg = [1], min_clock = 0, req_clock = 1000\<rparr>]\<rparr>)"
    "stepcompress_append ls
     (sc_fresh\<lparr>msg_queue := [\<lparr>msg = [1], min_clock = 0, req_clock = 1000\<rparr>]\<rparr>) 1 200000
     = Inr sc_late"
    by (simp_all add: stepcompress_reset_def stepcompress_queue_msg_def
        stepcompress_flush_def queue_flush_def calc_last_step_print_time_def Let_def
        expire_1e6 c message_alloc_and_encode_def append_pending sc_late_def sc_fresh_eq)
qed

lemma late_promote: "queue_append ls sc_late = Inr sc_late_queued"
  by (simp add: queue_append_def set_next_step_dir_def queue_flush_def
      queue_append_extend_def queue_make_room_def queue_store_def CLOCK_DIFF_MAX_def
      QUEUE_START_SIZE_def grow_alloc_same message_alloc_and_encode_def Let_def
      sc_late_queued_def sc_late_def sc_fresh_eq)

lemma late_compress: "compress_leastsquares ls qr_late = Inr \<lparr>am_add = 199988, am_count = 1\<rparr>"
  by (code_simp)

lemma qr_init_late: "qr_init sc_late_queued 46000 = qr_late" "qr_init sc_late_queued 65535 = qr_late"
  by (simp_all add: qr_init_def sc_late_queued_def sc_late_def sc_fresh_eq qr_late_def)

lemma late_wrap: "wrap_compress ls sc_late_queued = Inr \<lparr>interval = 199988, count = 1, add = 0\<rparr>"
proof -
  have e: "qr_pos qr_late = 0" "qr_end qr_late = 1" "qr_last_interval qr_late = 0"
    by (simp_all add: qr_late_def)
  show ?thesis
    unfolding wrap_compress_def qr_init_late Let_def late_compress
    by (simp add: e)
qed

lemma late_check: "check_line sc_late_queued \<lparr>interval = 199988, count = 1, add = 0\<rparr> = Inr ()"
proof -
  have "check_loop qr_late \<lparr>interval = 199988, count = 1, add = 0\<rparr> 199988 0 0 = Inr ()"
    by (code_simp)
  then show ?thesis
    unfolding check_line_def qr_init_late by (simp)
qed

lemma late_flush: "stepcompress_flush ls sc_late 300000 = Inr sc_late_flushed"
proof -
  have f: "last_step_clock sc_late_queued < 300000" "queue_pos sc_late_queued = 0"
    "queue_next sc_late_queued = 1"
    by (simp_all add: sc_late_queued_def sc_late_def sc_fresh_eq)
  have n: "(flush_next sc_late_queued \<lparr>interval = 199988, count = 1, add = 0\<rparr>)
             \<lparr>queue_pos := 0, queue_next := 0\<rparr> = sc_late_flushed"
    by (simp add: flush_next_def add_move_def Let_def message_alloc_and_encode_def
        sdiv32_def CLOCK_DIFF_MAX_def sc_late_flushed_def sc_late_queued_def sc_late_def
        sc_fresh_eq)
  have "queue_flush_loop ls sc_late_queued 300000 = Inr sc_late_flushed"
    using queue_flush_loop_last [of sc_late_queued 300000 ls
        "\<lparr>interval = 199988, count = 1, add = 0\<rparr>"] late_wrap late_check f n
    by (simp)
  moreover have "calc_last_step_print_time sc_late_flushed = sc_late_flushed"
    using double_of_u64_small [of 199988]
    by (simp add: calc_last_step_print_time_def Let_def expire_1e6
        sc_late_flushed_def sc_late_queued_def sc_late_def sc_fresh_eq)
  ultimately have "queue_flush ls sc_late_queued 300000 = Inr sc_late_flushed"
    using f(2,3) by (simp add: queue_flush_def)
  moreover have "next_step_clock sc_late \<noteq> 0 \<and> next_step_clock sc_late \<le> 300000"
    by (simp add: sc_late_def)
  ultimately show ?thesis
    by (simp add: stepcompress_flush_def late_promote)
qed

lemma late_sync:
  "sync_loop MAX_CLOCK [sc_late_flushed] [0] 300000 []
     = Inr ([sc_late_flushed\<lparr>msg_queue := []\<rparr>], [0],
            [(0, \<lparr>msg = [1], min_clock = 0, req_clock = 1000\<rparr>),
             (0, \<lparr>msg = [12, 7, 1], min_clock = 0, req_clock = 0\<rparr>),
             (0, \<lparr>msg = [11, 7, 199988, 1, 0], min_clock = 0, req_clock = 0\<rparr>)])"
proof -
  have q: "sync_loop MAX_CLOCK [sc] [0] 300000 []
     = Inr ([sc\<lparr>msg_queue := []\<rparr>], [0],
            [(0, \<lparr>msg = [1], min_clock = 0, req_clock = 1000\<rparr>),
             (0, \<lparr>msg = [12, 7, 1], min_clock = 0, req_clock = 0\<rparr>),
             (0, \<lparr>msg = [11, 7, 199988, 1, 0], min_clock = 0, req_clock = 0\<rparr>)])"
    if "msg_queue sc = [\<lparr>msg = [1], min_clock = 0, req_clock = 1000\<rparr>,
                    \<lparr>msg = [12, 7, 1], min_clock = 0, req_clock = 0\<rparr>,
                    \<lparr>msg = [11, 7, 199988, 1, 0], min_clock = 0, req_clock = 0\<rparr>]"
    for sc :: stepcompress
    using that
    by (simp add: sync_loop.simps list_del_first_def MAX_CLOCK_def)
  show ?thesis
    by (rule q) (simp add: sc_late_flushed_def)
qed

lemma late_steppersync:
  "steppersync_flush MAX_CLOCK ls ss_late 300000
     = Inr (\<lparr>sc_list = [sc_late_flushed\<lparr>msg_queue := []\<rparr>], move_clocks = [0]\<rparr>,
            [(0, \<lparr>msg = [1], min_clock = 0, req_clock = 1000\<rparr>),
             (0, \<lparr>msg = [12, 7, 1], min_clock = 0, req_clock = 0\<rparr>),
             (0, \<lparr>msg = [11, 7, 199988, 1, 0], min_clock = 0, req_clock = 0\<rparr>)])"
  by (simp add: steppersync_flush_def ss_late_def late_flush late_sync)

lemma s5_flush_all: "flush_all ls [sc_a, sc_b] 2000 = Inr [sc_a, sc_b]"
  by (simp add: stepcompress_flush_def queue_flush_def sc_a_def sc_b_def sc_fresh_eq)

lemma s5_sync:
  "sync_loop MAX_CLOCK [sc_a, sc_b] [0, 0] 2000 []
     = Inr ([sc_a\<lparr>msg_queue := []\<rparr>, sc_b\<lparr>msg_queue := []\<rparr>], [400, 500],
            [(1, \<lparr>msg = [11, 8, 500, 1, 0], min_clock = 0, req_clock = 900\<rparr>),
             (0, \<lparr>msg = [11, 7, 500, 1, 0], min_clock = 0, req_clock = 1000\<rparr>)])"
proof -
  have q: "sync_loop MAX_CLOCK [a, b] [0, 0] 2000 []
     = Inr ([a\<lparr>msg_queue := []\<rparr>, b\<lparr>msg_queue := []\<rparr>], [400, 500],
            [(1, \<lparr>msg = [11, 8, 500, 1, 0], min_clock = 0, req_clock = 900\<rparr>),
             (0, \<lparr>msg = [11, 7, 500, 1, 0], min_clock = 0, req_clock = 1000\<rparr>)])"
    if "msg_queue a = [\<lparr>msg = [11, 7, 500, 1, 0], min_clock = 500, req_clock = 1000\<rparr>]"
      and "msg_queue b = [\<lparr>msg = [11, 8, 500, 1, 0], min_clock = 400, req_clock = 900\<rparr>]"
    for a b :: stepcompress
    using that
    by (simp add: sync_loop.simps heap_replace_loop.simps list_del_first_def
        MAX_CLOCK_def Let_def word_gt_0)
  show ?thesis
    by (rule q) (simp_all add: sc_a_def sc_b_def)
qed

lemma s5_steppersync:
  "steppersync_flush MAX_CLOCK ls ss_s5 2000
     = Inr (\<lparr>sc_list = [sc_a\<lparr>msg_queue := []\<rparr>, sc_b\<lparr>msg_queue := []\<rparr>],
              move_clocks = [400, 500]\<rparr>,
            [(1, \<lparr>msg = [11, 8, 500, 1, 0], min_clock = 0, req_clock = 900\<rparr>),
             (0, \<lparr>msg = [11, 7, 500, 1, 0], min_clock = 0, req_clock = 1000\<rparr>)])"
  by (simp add: steppersync_flush_def ss_s5_def s5_flush_all s5_sync
      del: flush_all.simps)

subsection \<open>C6: the order of the batch\<close>

text \<open>
  C6 as stated fails: the steppersync \<open>ss_late\<close> has one stepper, whose message queue
  holds the single message of \<open>req_clock\<close> 1000 and so is in non-decreasing order.
  \<open>steppersync_flush\<close> up to clock 300000 first calls \<open>stepcompress_flush\<close>, which
  queues the pending step at clock 200000: \<open>set_next_step_dir\<close> and \<open>add_move\<close> append
  two messages with \<open>req_clock = last_step_clock = 0\<close> behind the queued one. The batch
  has the clocks 1000, 0, 0.
\<close>

theorem stale_message_counterexample:
  "queues_sorted (sc_list ss_late)
   \<and> \<not> isl (steppersync_flush MAX_CLOCK ls_none ss_late 300000)
   \<and> batch_clocks (snd (projr (steppersync_flush MAX_CLOCK ls_none ss_late 300000)))
       = [1000, 0, 0]
   \<and> \<not> sorted [1000, 0, 0 :: u64]"
proof -
  have "queues_sorted (sc_list ss_late)"
    by (simp add: queues_sorted_def ss_late_def sc_late_def)
  then show ?thesis
    by (simp add: late_steppersync batch_clocks_def)
qed

text \<open>
  C6, amended. If the per-stepper message queues are each in non-decreasing \<open>req_clock\<close>
  order after \<open>steppersync_flush\<close> has called \<open>stepcompress_flush\<close> on every stepper,
  then the batch of a \<open>steppersync_flush\<close> that returns 0 is non-decreasing in
  \<open>req_clock\<close>, and for every stepper the messages of the batch drawn from it, followed
  by the messages left in its queue, are its queue after that flush, in the same order.
\<close>

theorem steppersync_flush_order:
  assumes "flush_all ls (sc_list ss) move_clock = Inr scs"
    and "queues_sorted scs"
    and "steppersync_flush max_clock ls ss move_clock = Inr (ss', batch)"
  shows "sorted (batch_clocks batch) \<and> length (sc_list ss') = length scs
     \<and> (\<forall>k < length scs.
          map sent (taken_from k batch) @ map sent (msg_queue (sc_list ss' ! k))
          = map sent (msg_queue (scs ! k)))"
proof -
  obtain scs' mc' where l: "sync_loop max_clock scs (move_clocks ss) move_clock [] = Inr (scs', mc', batch)"
    and s: "ss' = \<lparr>sc_list = scs', move_clocks = mc'\<rparr>"
    using assms(1,3)
    by (auto simp: steppersync_flush_def split: sum.splits prod.splits)
  have "below [] scs" "sorted (batch_clocks [])" "\<And>k. taken_from k [] = []"
    by (simp_all add: below_def batch_clocks_def taken_from_def)
  then show ?thesis
    using sync_loop_order [OF l assms(2)] s by (simp)
qed

theorem steppersync_flush_order_witness:
  "flush_all ls_none (sc_list ss_s5) 2000 = Inr [sc_a, sc_b]
   \<and> queues_sorted [sc_a, sc_b]
   \<and> steppersync_flush MAX_CLOCK ls_none ss_s5 2000
       = Inr (\<lparr>sc_list = [sc_a\<lparr>msg_queue := []\<rparr>, sc_b\<lparr>msg_queue := []\<rparr>],
                move_clocks = [400, 500]\<rparr>,
              [(1, \<lparr>msg = [11, 8, 500, 1, 0], min_clock = 0, req_clock = 900\<rparr>),
               (0, \<lparr>msg = [11, 7, 500, 1, 0], min_clock = 0, req_clock = 1000\<rparr>)])
   \<and> sorted (batch_clocks
        [(1, \<lparr>msg = [11, 8, 500, 1, 0], min_clock = 0, req_clock = 900\<rparr>),
         (0, \<lparr>msg = [11, 7, 500, 1, 0], min_clock = 0, req_clock = 1000\<rparr>)])
   \<and> map sent (taken_from 1
        [(1, \<lparr>msg = [11, 8, 500, 1, 0], min_clock = 0, req_clock = 900\<rparr>),
         (0, \<lparr>msg = [11, 7, 500, 1, 0], min_clock = 0, req_clock = 1000\<rparr>)])
       = map sent (msg_queue sc_b)"
proof -
  have f: "flush_all ls_none (sc_list ss_s5) 2000 = Inr [sc_a, sc_b]"
    by (simp add: ss_s5_def s5_flush_all del: flush_all.simps)
  have q: "queues_sorted [sc_a, sc_b]"
    by (simp add: queues_sorted_def sc_a_def sc_b_def)
  note r = s5_steppersync [of ls_none]
  have "sorted (batch_clocks
        [(1, \<lparr>msg = [11, 8, 500, 1, 0], min_clock = 0, req_clock = 900\<rparr>),
         (0, \<lparr>msg = [11, 7, 500, 1, 0], min_clock = 0, req_clock = 1000\<rparr>)])"
    using steppersync_flush_order [OF f q r, THEN conjunct1] .
  moreover have "map sent (taken_from 1
        [(1, \<lparr>msg = [11, 8, 500, 1, 0], min_clock = 0, req_clock = 900\<rparr>),
         (0, \<lparr>msg = [11, 7, 500, 1, 0], min_clock = 0, req_clock = 1000\<rparr>)])
       = map sent (msg_queue sc_b)"
    using steppersync_flush_order [OF f q r, THEN conjunct2, THEN conjunct2, THEN spec, of 1]
    by (simp)
  ultimately show ?thesis
    using f q r by (simp only: simp_thms)
qed

subsection \<open>The cursors stay inside the buffer\<close>










subsection \<open>Appending without a flush\<close>










subsection \<open>C3: the number of unconsumed entries\<close>




end
